theory Spec2Isabelle
  imports Main "HOL-Library.Sublist" "HOL-Library.Multiset" "HOL-Library.AList"
begin

section \<open>JavaScript strings\<close>

text \<open>
  Strings are lists of characters; \<open>length\<close> counts the units the source's
  \<open>.length\<close> counts. The string methods the content scripts call are written out.
\<close>

definition strIncludes :: "string \<Rightarrow> string \<Rightarrow> bool" where
  \<comment> \<open>\<open>hay.includes(needle)\<close>\<close>
  "strIncludes hay needle = sublist needle hay"

definition endsWith :: "string \<Rightarrow> string \<Rightarrow> bool" where
  \<comment> \<open>\<open>s.endsWith(t)\<close>\<close>
  "endsWith s t = suffix t s"

definition isSpace :: "char \<Rightarrow> bool" where
  \<comment> \<open>the white space of \<open>trim()\<close> and of the regular expression class \<open>\s\<close>,
      as far as it lies in the character range of the model\<close>
  "isSpace c = (c \<in> {CHR 0x09, CHR 0x0A, CHR 0x0B, CHR 0x0C, CHR 0x0D, CHR 0x20, CHR 0xA0})"

definition trim :: "string \<Rightarrow> string" where
  \<comment> \<open>\<open>s.trim()\<close>\<close>
  "trim s = rev (dropWhile isSpace (rev (dropWhile isSpace s)))"

fun collapseFrom :: "bool \<Rightarrow> string \<Rightarrow> string" where
  \<comment> \<open>the flag says that the character before was white space\<close>
  "collapseFrom inRun [] = []"
| "collapseFrom inRun (c # cs) =
     (if isSpace c then (if inRun then collapseFrom True cs else CHR '' '' # collapseFrom True cs)
      else c # collapseFrom False cs)"

definition collapseSpaces :: "string \<Rightarrow> string" where
  \<comment> \<open>\<open>s.replace(/\s+/g, " ")\<close>: every maximal run of white space becomes one space\<close>
  "collapseSpaces s = collapseFrom False s"

definition lowerChar :: "char \<Rightarrow> char" where
  "lowerChar c =
     (let k = (of_char c :: nat) in if 65 \<le> k \<and> k \<le> 90 then char_of (k + 32) else c)"

definition toLowerCase :: "string \<Rightarrow> string" where
  \<comment> \<open>\<open>s.toLowerCase()\<close> on the letters A to Z\<close>
  "toLowerCase s = map lowerChar s"

fun splitSpaces :: "string \<Rightarrow> string \<Rightarrow> string list" where
  \<comment> \<open>split on ASCII white space, as the class attribute is split into tokens;
      the first argument is the token being read\<close>
  "splitSpaces cur [] = (if cur = [] then [] else [cur])"
| "splitSpaces cur (c # cs) =
     (if c \<in> {CHR 0x09, CHR 0x0A, CHR 0x0C, CHR 0x0D, CHR 0x20}
      then (if cur = [] then splitSpaces [] cs else cur # splitSpaces [] cs)
      else splitSpaces (cur @ [c]) cs)"

fun joinSpaces :: "string list \<Rightarrow> string" where
  "joinSpaces [] = []"
| "joinSpaces [t] = t"
| "joinSpaces (t # ts) = t @ '' '' @ joinSpaces ts"

section \<open>The host page: a tree of nodes\<close>

text \<open>
  The scripts do not own the page. A node is an element (tag name in lower case,
  attributes in order, the three layout properties the tab detection reads, child nodes)
  or a character-data node. \<open>nid\<close> is the identity of the node object: two references
  are the same object iff their \<open>nid\<close> is equal. A character-data node has no
  \<open>id\<close> attribute; a script that assigns \<open>node.id\<close> to it only creates a property
  on the object (\<open>expando\<close>), invisible to \<open>getElementById\<close>.
  The root of a page is the document node; queries on \<open>document\<close> search its
  descendants.
\<close>

record layout =
  offsetParentNull :: bool
  offsetHeight :: int
  offsetWidth :: int

datatype node =
    Element nat string "(string \<times> string) list" layout "node list"
  | Text nat string "string option"

fun nid :: "node \<Rightarrow> nat" where
  "nid (Element i t a b cs) = i"
| "nid (Text i s e) = i"

fun isElement :: "node \<Rightarrow> bool" where
  "isElement (Element i t a b cs) = True"
| "isElement (Text i s e) = False"

fun tagName :: "node \<Rightarrow> string" where
  "tagName (Element i t a b cs) = t"
| "tagName (Text i s e) = []"

fun attrs :: "node \<Rightarrow> (string \<times> string) list" where
  "attrs (Element i t a b cs) = a"
| "attrs (Text i s e) = []"

fun childNodes :: "node \<Rightarrow> node list" where
  "childNodes (Element i t a b cs) = cs"
| "childNodes (Text i s e) = []"

fun box :: "node \<Rightarrow> layout" where
  "box (Element i t a b cs) = b"
| "box (Text i s e) = \<lparr>offsetParentNull = True, offsetHeight = 0, offsetWidth = 0\<rparr>"

definition children :: "node \<Rightarrow> node list" where
  \<comment> \<open>\<open>el.children\<close>: the child nodes that are elements\<close>
  "children n = filter isElement (childNodes n)"

fun descendants :: "node \<Rightarrow> node list" where
  \<comment> \<open>the proper descendants in document order\<close>
  "descendants (Element i t a b cs) = concat (map (\<lambda>c. c # descendants c) cs)"
| "descendants (Text i s e) = []"

definition nodes :: "node \<Rightarrow> node list" where
  \<comment> \<open>a node and its descendants in document order\<close>
  "nodes n = n # descendants n"

definition nids :: "node \<Rightarrow> nat list" where
  "nids n = map nid (nodes n)"

definition wfTree :: "node \<Rightarrow> bool" where
  \<comment> \<open>a tree of distinct node objects\<close>
  "wfTree d = distinct (nids d)"

definition getAttribute :: "node \<Rightarrow> string \<Rightarrow> string option" where
  \<comment> \<open>\<open>el.getAttribute(name)\<close>; None is null\<close>
  "getAttribute n name = map_of (attrs n) name"

definition elId :: "node \<Rightarrow> string" where
  \<comment> \<open>\<open>node.id\<close>: the id attribute of an element ('''' when absent); on a
      character-data node the property a script has put there, else undefined,
      which is falsy as '''' is\<close>
  "elId n = (case n of
       Element i t a b cs \<Rightarrow> (case map_of a ''id'' of None \<Rightarrow> [] | Some v \<Rightarrow> v)
     | Text i s e \<Rightarrow> (case e of None \<Rightarrow> [] | Some v \<Rightarrow> v))"

definition classList :: "node \<Rightarrow> string list" where
  "classList n = (case getAttribute n ''class'' of None \<Rightarrow> [] | Some v \<Rightarrow> remdups (splitSpaces [] v))"

fun textContent :: "node \<Rightarrow> string" where
  "textContent (Element i t a b cs) = concat (map textContent cs)"
| "textContent (Text i s e) = s"

subsection \<open>Selectors\<close>

text \<open>
  The selectors of the source are comma lists of compound selectors without
  combinators. Each is written as the list of its alternatives, an alternative as the list
  of simple selectors that must all hold: \<open>details[data-resolved="false"]\<close> is
  \<open>[[Tag ''details'', AttrEq ''data-resolved'' ''false'']]\<close>.
\<close>

datatype simple = Tag string | Cls string | Ident string | AttrEq string string | AttrHas string

type_synonym selector = "simple list list"

fun matchesSimple :: "node \<Rightarrow> simple \<Rightarrow> bool" where
  "matchesSimple n (Tag t) = (tagName n = t)"
| "matchesSimple n (Cls c) = (c \<in> set (classList n))"
| "matchesSimple n (Ident i) = (getAttribute n ''id'' = Some i)"
| "matchesSimple n (AttrEq a v) = (getAttribute n a = Some v)"
| "matchesSimple n (AttrHas a) = (getAttribute n a \<noteq> None)"

definition matches :: "selector \<Rightarrow> node \<Rightarrow> bool" where
  "matches sel n = (isElement n \<and> (\<exists>alt \<in> set sel. \<forall>s \<in> set alt. matchesSimple n s))"

definition querySelector :: "selector \<Rightarrow> node \<Rightarrow> node option" where
  \<comment> \<open>\<open>ctx.querySelector(sel)\<close>, and \<open>safeQuery\<close>, whose catch no selector of the
      source reaches: the first matching descendant in document order\<close>
  "querySelector sel ctx = find (matches sel) (descendants ctx)"

definition querySelectorAll :: "selector \<Rightarrow> node \<Rightarrow> node list" where
  \<comment> \<open>\<open>Array.from(ctx.querySelectorAll(sel))\<close> and \<open>safeQueryAll\<close>\<close>
  "querySelectorAll sel ctx = filter (matches sel) (descendants ctx)"

definition getElementById :: "string \<Rightarrow> node \<Rightarrow> node option" where
  \<comment> \<open>\<open>document.getElementById(s)\<close>\<close>
  "getElementById s d = find (\<lambda>n. isElement n \<and> s \<noteq> [] \<and> getAttribute n ''id'' = Some s) (descendants d)"

definition contains :: "node \<Rightarrow> nat \<Rightarrow> bool" where
  \<comment> \<open>\<open>n.contains(k)\<close>: k is n or a descendant of n\<close>
  "contains n k = (k \<in> set (nids n))"

definition ancestorsOrSelf :: "nat \<Rightarrow> node \<Rightarrow> node list" where
  \<comment> \<open>the node k and its ancestors below the document node, innermost first\<close>
  "ancestorsOrSelf k d = rev (filter (\<lambda>n. contains n k) (descendants d))"

definition closest :: "selector \<Rightarrow> nat \<Rightarrow> node \<Rightarrow> node option" where
  \<comment> \<open>\<open>el.closest(sel)\<close> for the node k of the page d\<close>
  "closest sel k d = find (matches sel) (ancestorsOrSelf k d)"

definition lookup :: "nat \<Rightarrow> node \<Rightarrow> node option" where
  \<comment> \<open>the present state of the node object k\<close>
  "lookup k d = find (\<lambda>n. nid n = k) (nodes d)"

definition parentNode :: "nat \<Rightarrow> node \<Rightarrow> node option" where
  \<comment> \<open>\<open>k.parentNode\<close>\<close>
  "parentNode k d = find (\<lambda>p. k \<in> set (map nid (childNodes p))) (nodes d)"

fun after :: "nat \<Rightarrow> node list \<Rightarrow> node option" where
  \<comment> \<open>the node that follows k in a list of siblings\<close>
  "after k [] = None"
| "after k [c] = None"
| "after k (c # c' # cs) = (if nid c = k then Some c' else after k (c' # cs))"

definition nextSibling :: "nat \<Rightarrow> node \<Rightarrow> node option" where
  \<comment> \<open>\<open>k.nextSibling\<close>\<close>
  "nextSibling k d = (case parentNode k d of None \<Rightarrow> None | Some p \<Rightarrow> after k (childNodes p))"

section \<open>Comment resolution (comments module)\<close>

definition selUnresolved :: selector where
  \<comment> \<open>\<open>'details[data-resolved="false"]'\<close>\<close>
  "selUnresolved = [[Tag ''details'', AttrEq ''data-resolved'' ''false'']]"

definition isCommentResolved :: "node \<Rightarrow> bool" where
  "isCommentResolved element =
     (let unresolvedThread = querySelector selUnresolved element
      in unresolvedThread = None)"

section \<open>The engine state and its surroundings\<close>

record engine =
  currentSort :: string
  sortControlsInjected :: bool
  isInitialized :: bool
  debounceTimer :: "nat option"

datatype task =
    HandleMutations
  | NotificationShow nat
  | NotificationHide nat

text \<open>
  Everything a call can read or change: \<open>window.location\<close>, the document, the identity
  the next created node will get, \<open>Date.now()\<close>, the state object of the core module,
  whether the sorting module has picked up the two functions of the UI module
  (its \<open>setTimeout(..., 0)\<close> has run), the two stores with the ways they can fail,
  the pending timers and animation frames (handle, delay, task) and the console.
\<close>

record world =
  pathname :: string
  hash :: string
  doc :: node
  fresh :: nat
  now :: nat
  state :: engine
  uiLoaded :: bool
  syncAvailable :: bool
  syncSetRejects :: bool
  localStorageThrows :: bool
  syncStore :: "(string \<times> string) list"
  localStore :: "(string \<times> string) list"
  timers :: "(nat \<times> nat \<times> task) list"
  nextTimer :: nat
  console :: "string list"

datatype error = TypeError | HierarchyRequestError | NotFoundError

datatype 'a completion = Normal 'a | Abrupt error

section \<open>Tab detection (UI module)\<close>

definition rendered :: "node \<Rightarrow> bool" where
  \<comment> \<open>\<open>el.offsetParent !== null && el.offsetHeight > 0 && el.offsetWidth > 0\<close>\<close>
  "rendered n = (\<not> offsetParentNull (box n) \<and> offsetHeight (box n) > 0 \<and> offsetWidth (box n) > 0)"

text \<open>
  \<open>isConversationTab()\<close> tries five strategies in order; each definition below is the
  function body from one strategy to the end.
\<close>

definition tabStrategy5 :: "world \<Rightarrow> bool" where
  \<comment> \<open>Strategy 5: the selected item of the tab navigation, then the default\<close>
  "tabStrategy5 w =
    (case querySelector [[Cls ''tabnav-tabs''], [Cls ''UnderlineNav-body'']] (doc w) of
       None \<Rightarrow> False
     | Some prTabNav \<Rightarrow>
        (case querySelector
            [[AttrEq ''aria-current'' ''page''], [Cls ''selected''],
             [AttrEq ''aria-selected'' ''true'']] prTabNav of
           None \<Rightarrow> False
         | Some selectedTab \<Rightarrow>
            let tabText = toLowerCase (textContent selectedTab);
                tabHref = (case getAttribute selectedTab ''href'' of
                             None \<Rightarrow> [] | Some h \<Rightarrow> h)
            in if strIncludes tabText ''file'' \<or> strIncludes tabText ''commit'' \<or>
                  strIncludes tabText ''check'' \<or> strIncludes tabHref ''/files'' \<or>
                  strIncludes tabHref ''/commits'' \<or> strIncludes tabHref ''/checks''
               then False
               else if strIncludes tabText ''conversation'' \<or> endsWith tabHref ''/pull/'' \<or>
                  \<not> strIncludes tabHref ''#''
               then True
               else False))"

definition tabStrategy4 :: "world \<Rightarrow> bool" where
  \<comment> \<open>Strategy 4: the discussion bucket exists and is visible\<close>
  "tabStrategy4 w =
    (case querySelector [[Ident ''discussion_bucket'']] (doc w) of
       None \<Rightarrow> False
     | Some discussionBucket \<Rightarrow>
        let isVisible = rendered discussionBucket;
            hasVisibleClass =
              (''is-visible'' \<in> set (classList discussionBucket) \<or>
               ''show'' \<in> set (classList discussionBucket) \<or>
               ''d-none'' \<notin> set (classList discussionBucket))
        in if isVisible \<and> hasVisibleClass then True else tabStrategy5 w)"

definition tabStrategy3 :: "world \<Rightarrow> bool" where
  \<comment> \<open>Strategy 3: which content containers are visible\<close>
  "tabStrategy3 w =
    (let filesContainer = querySelector
           [[Ident ''files''], [Ident ''files_bucket''], [Cls ''file-diff''],
            [Cls ''js-diff-progressive-container'']] (doc w) in
     if (case filesContainer of None \<Rightarrow> False | Some f \<Rightarrow> rendered f) then False
     else let commitsContainer = querySelector
           [[Cls ''commits-list-item''], [Cls ''TimelineItem--condensed''],
            [AttrEq ''data-test-selector'' ''pr-commits-list'']] (doc w) in
     if (case commitsContainer of None \<Rightarrow> False
         | Some c \<Rightarrow> rendered c \<and>
             closest [[Ident ''discussion_bucket''], [Cls ''discussion-timeline'']] (nid c) (doc w)
               = None)
     then False
     else let checksContainer = querySelector
           [[Cls ''checks-list''], [AttrEq ''data-test-selector'' ''checks-tab-content'']] (doc w) in
     if (case checksContainer of None \<Rightarrow> False | Some c \<Rightarrow> rendered c) then False
     else tabStrategy4 w)"

definition tabStrategy2 :: "world \<Rightarrow> bool" where
  \<comment> \<open>Strategy 2: the URL hash\<close>
  "tabStrategy2 w =
    (if hash w \<noteq> [] \<and>
        (strIncludes (hash w) ''commits'' \<or> strIncludes (hash w) ''checks'' \<or>
         strIncludes (hash w) ''files'' \<or> strIncludes (hash w) ''diff-'')
     then False
     else tabStrategy3 w)"

definition isConversationTab :: "world \<Rightarrow> bool" where
  \<comment> \<open>Strategy 1: the URL pathname\<close>
  "isConversationTab w =
    (if strIncludes (pathname w) ''/files'' \<or> strIncludes (pathname w) ''/commits'' \<or>
        strIncludes (pathname w) ''/changes'' \<or> strIncludes (pathname w) ''/checks''
     then False
     else tabStrategy2 w)"

section \<open>Comment data and unresolved conversations (comments module)\<close>

function digits :: "nat \<Rightarrow> string" where
  \<comment> \<open>the decimal numeral a template literal prints for a non-negative integer\<close>
  "digits n = (if n < 10 then [char_of (48 + n)] else digits (n div 10) @ [char_of (48 + n mod 10)])"
  by pat_completeness auto
termination
  by (relation "measure id") auto

declare digits.simps [simp del]

record commentData =
  element :: node
  timestamp :: "int option"
  resolved :: bool
  hasTimeElement :: bool

definition selTime :: selector where
  \<comment> \<open>\<open>"relative-time, time"\<close>\<close>
  "selTime = [[Tag ''relative-time''], [Tag ''time'']]"

definition querySelectorOn :: "selector \<Rightarrow> node \<Rightarrow> node option completion" where
  \<comment> \<open>the call \<open>element.querySelector(sel)\<close> on a value that need not be an element:
      a character-data node has no such method, and calling it throws\<close>
  "querySelectorOn sel n = (if isElement n then Normal (querySelector sel n) else Abrupt TypeError)"

definition isCommentResolvedOn :: "node \<Rightarrow> bool completion" where
  "isCommentResolvedOn n =
     (case querySelectorOn selUnresolved n of
        Abrupt e \<Rightarrow> Abrupt e
      | Normal unresolvedThread \<Rightarrow> Normal (unresolvedThread = None))"

text \<open>
  \<open>extractCommentData(element, index)\<close>. None is a null or undefined argument or
  result. A time value None is the time value NaN of an invalid date; \<open>parse\<close> is the
  date parser of \<open>new Date(string)\<close>, a parameter. The second component is what
  the call writes to the console.
\<close>

definition extractCommentData ::
  "(string \<Rightarrow> int option) \<Rightarrow> nat \<Rightarrow> node option \<Rightarrow> int
     \<Rightarrow> commentData option completion \<times> string list" where
  "extractCommentData parse dateNow elem index =
    (case elem of
       None \<Rightarrow> (Normal None, [])
     | Some el \<Rightarrow>
        (let attempt =
           (case querySelectorOn selTime el of
              Abrupt e \<Rightarrow> Abrupt e
            | Normal timeElement \<Rightarrow>
               (let ts = (case timeElement of
                            Some t \<Rightarrow> (case getAttribute t ''datetime'' of
                                         None \<Rightarrow> Some (int dateNow)
                                       | Some datetime \<Rightarrow>
                                          if datetime \<noteq> [] then parse datetime
                                          else Some (int dateNow))
                          | None \<Rightarrow> Some (int dateNow + index));
                    res = (case isCommentResolvedOn el of
                             Normal r \<Rightarrow> r | Abrupt e \<Rightarrow> False)
                in Normal \<lparr>element = el, timestamp = ts, resolved = res,
                            hasTimeElement = (timeElement \<noteq> None)\<rparr>))
         in case attempt of
              Normal r \<Rightarrow> (Normal (Some r), [])
            | Abrupt e \<Rightarrow>
               (Normal (Some \<lparr>element = el, timestamp = Some (int dateNow + index),
                               resolved = False, hasTimeElement = False\<rparr>),
                [''[PR Enhancer] Error extracting comment data:''])))"

record unresolvedEntry =
  entryElement :: node
  username :: string
  snippet :: string
  entryId :: string

definition normalisedBody :: "node \<Rightarrow> string" where
  \<comment> \<open>\<open>bodyEl ? bodyEl.textContent.trim().replace(/\s+/g, " ") : ""\<close>\<close>
  "normalisedBody details =
     (case querySelector [[Cls ''comment-body'']] details of
        None \<Rightarrow> []
      | Some bodyEl \<Rightarrow> collapseSpaces (trim (textContent bodyEl)))"

definition unresolvedItem :: "node \<Rightarrow> nat \<Rightarrow> unresolvedEntry" where
  \<comment> \<open>the callback of the \<open>map\<close> in \<open>getUnresolvedConversations\<close>\<close>
  "unresolvedItem details index =
     (let container = details;
          authorEl = querySelector [[Cls ''author''], [Cls ''js-author'']] details;
          uname = (case authorEl of None \<Rightarrow> ''Unknown'' | Some a \<Rightarrow> trim (textContent a));
          snip = normalisedBody details;
          snip' = (if length snip > 60 then take 60 snip @ ''...'' else snip)
      in \<lparr>entryElement = container, username = uname, snippet = snip',
          entryId = (if elId container \<noteq> [] then elId container
                     else ''unresolved-'' @ digits index)\<rparr>)"

definition getUnresolvedConversations :: "node \<Rightarrow> unresolvedEntry list" where
  "getUnresolvedConversations d =
     (let unresolvedDetails = querySelectorAll selUnresolved d
      in map (\<lambda>(details, index). unresolvedItem details index)
           (zip unresolvedDetails [0..<length unresolvedDetails]))"

section \<open>Changing the page\<close>

text \<open>
  The DOM methods the scripts call. A method that throws changes nothing; the scripts'
  changes made before a throw stay.
\<close>

fun updNode :: "nat \<Rightarrow> (node \<Rightarrow> node) \<Rightarrow> node \<Rightarrow> node" where
  \<comment> \<open>the page after the node object k has been changed by f\<close>
  "updNode k f (Element i t a b cs) =
     (if i = k then f (Element i t a b cs) else Element i t a b (map (updNode k f) cs))"
| "updNode k f (Text i s e) = (if i = k then f (Text i s e) else Text i s e)"

fun removeNode :: "nat \<Rightarrow> node \<Rightarrow> node" where
  \<comment> \<open>the page without the node k and its subtree\<close>
  "removeNode k (Element i t a b cs) =
     Element i t a b (map (removeNode k) (filter (\<lambda>c. nid c \<noteq> k) cs))"
| "removeNode k (Text i s e) = Text i s e"

fun setAttr :: "string \<Rightarrow> string \<Rightarrow> node \<Rightarrow> node" where
  "setAttr name v (Element i t a b cs) = Element i t (AList.update name v a) b cs"
| "setAttr name v (Text i s e) = Text i s e"

fun delAttr :: "string \<Rightarrow> node \<Rightarrow> node" where
  "delAttr name (Element i t a b cs) = Element i t (AList.delete name a) b cs"
| "delAttr name (Text i s e) = Text i s e"

fun setId :: "string \<Rightarrow> node \<Rightarrow> node" where
  \<comment> \<open>the assignment \<open>node.id = v\<close>\<close>
  "setId v (Element i t a b cs) = Element i t (AList.update ''id'' v a) b cs"
| "setId v (Text i s e) = Text i s (Some v)"

definition setAttribute :: "nat \<Rightarrow> string \<Rightarrow> string \<Rightarrow> node \<Rightarrow> node" where
  \<comment> \<open>\<open>k.setAttribute(name, v)\<close>; \<open>k.dataset.fooBar = v\<close> sets \<open>data-foo-bar\<close>\<close>
  "setAttribute k name v d = updNode k (setAttr name v) d"

definition removeAttribute :: "nat \<Rightarrow> string \<Rightarrow> node \<Rightarrow> node" where
  \<comment> \<open>\<open>delete k.dataset.fooBar\<close> removes \<open>data-foo-bar\<close>\<close>
  "removeAttribute k name d = updNode k (delAttr name) d"

definition classToggle :: "string \<Rightarrow> bool \<Rightarrow> node \<Rightarrow> node" where
  \<comment> \<open>\<open>el.classList.toggle(c, force)\<close>: the attribute is rewritten from the token set
      only when the set changes\<close>
  "classToggle c force n =
     (let tokens = rev (remdups (rev (case getAttribute n ''class'' of
                      None \<Rightarrow> [] | Some v \<Rightarrow> splitSpaces [] v)))
      in if c \<in> set tokens
         then (if force then n else setAttr ''class'' (joinSpaces (removeAll c tokens)) n)
         else (if force then setAttr ''class'' (joinSpaces (tokens @ [c])) n else n))"

definition placeBefore :: "node \<Rightarrow> nat option \<Rightarrow> node list \<Rightarrow> node list" where
  \<comment> \<open>a sibling list with x put before the sibling r, at the end when r is null\<close>
  "placeBefore x r cs =
     (case r of
        None \<Rightarrow> cs @ [x]
      | Some c \<Rightarrow> takeWhile (\<lambda>n. nid n \<noteq> c) cs @ [x] @ dropWhile (\<lambda>n. nid n \<noteq> c) cs)"

fun withChildren :: "(node list \<Rightarrow> node list) \<Rightarrow> node \<Rightarrow> node" where
  "withChildren f (Element i t a b cs) = Element i t a b (f cs)"
| "withChildren f (Text i s e) = Text i s e"

definition insertNode :: "nat \<Rightarrow> node \<Rightarrow> nat option \<Rightarrow> node \<Rightarrow> node completion" where
  \<comment> \<open>\<open>p.insertBefore(x, r)\<close> for the node object x in its present state: the validity
      checks of the DOM standard, then x leaves its old place and enters the child list
      of p before r\<close>
  "insertNode p x r d =
     (case lookup p d of
        None \<Rightarrow> Normal d
      | Some pn \<Rightarrow>
         if \<not> isElement pn then Abrupt HierarchyRequestError
         else if contains x p then Abrupt HierarchyRequestError
         else if (case r of None \<Rightarrow> False
                  | Some c \<Rightarrow> map_option nid (parentNode c d) \<noteq> Some p)
         then Abrupt NotFoundError
         else if p = nid d \<and> (\<not> isElement x \<or> (\<exists>c \<in> set (childNodes d). isElement c))
         then Abrupt HierarchyRequestError
         else let r' = (if r = Some (nid x) then map_option nid (nextSibling (nid x) d) else r)
              in Normal (updNode p (withChildren (placeBefore x r')) (removeNode (nid x) d)))"

definition insertBefore :: "nat \<Rightarrow> nat \<Rightarrow> nat option \<Rightarrow> node \<Rightarrow> node completion" where
  \<comment> \<open>\<open>p.insertBefore(x, r)\<close> for a node x of the page; every reference the scripts
      pass comes from a query on the page\<close>
  "insertBefore p x r d =
     (case lookup x d of None \<Rightarrow> Normal d | Some xn \<Rightarrow> insertNode p xn r d)"

definition appendChild :: "nat \<Rightarrow> nat \<Rightarrow> node \<Rightarrow> node completion" where
  "appendChild p x d = insertBefore p x None d"

definition documentBody :: "node \<Rightarrow> node option" where
  \<comment> \<open>\<open>document.body\<close>\<close>
  "documentBody d =
     (case find isElement (childNodes d) of
        None \<Rightarrow> None
      | Some html \<Rightarrow>
         if tagName html = ''html''
         then find (\<lambda>c. isElement c \<and> (tagName c = ''body'' \<or> tagName c = ''frameset''))
                (childNodes html)
         else None)"

datatype outcome = Returned world | Threw error world

fun final :: "outcome \<Rightarrow> world" where
  \<comment> \<open>the world a call leaves behind, whether it returned or threw\<close>
  "final (Returned w) = w"
| "final (Threw e w) = w"

section \<open>Storage (core module)\<close>

definition savePreference :: "string \<Rightarrow> world \<Rightarrow> world" where
  \<comment> \<open>the write to \<open>chrome.storage.sync\<close> and, when its promise rejects, to
      \<open>localStorage\<close>; the settlement of the promise is taken at the call\<close>
  "savePreference sortOption w =
     (if syncAvailable w
      then (if syncSetRejects w
            then (if localStorageThrows w then w
                  else w\<lparr>localStore := AList.update ''pr-sorter-preference'' sortOption (localStore w)\<rparr>)
            else w\<lparr>syncStore := AList.update ''sortPreference'' sortOption (syncStore w)\<rparr>)
      else w)"

section \<open>Sort indicator and notification (UI module)\<close>

definition updateSortIndicator :: "string \<Rightarrow> node \<Rightarrow> node" where
  "updateSortIndicator sortOption d =
     (let sortBtns = querySelectorAll [[Cls ''pr-sorter-btn'', AttrHas ''data-sort'']] d
      in foldl (\<lambda>d' btn.
           let isActive = (getAttribute btn ''data-sort'' = Some sortOption)
           in updNode (nid btn)
                (\<lambda>n. setAttr ''aria-pressed'' (if isActive then ''true'' else ''false'')
                        (classToggle ''active'' isActive n)) d')
           d sortBtns)"

definition newBox :: layout where
  \<comment> \<open>the layout of a node the scripts create is the browser's; nothing here reads it\<close>
  "newBox = \<lparr>offsetParentNull = True, offsetHeight = 0, offsetWidth = 0\<rparr>"

definition notificationNode :: "nat \<Rightarrow> string \<Rightarrow> bool \<Rightarrow> node" where
  \<comment> \<open>the element \<open>showNotification\<close> builds, for a message without markup; the icon
      path is kept as one attribute of the \<open>path\<close> element\<close>
  "notificationNode k message isError =
     Element k ''div''
       [(''class'', ''pr-sorter-notification '' @ (if isError then ''error'' else [])),
        (''role'', ''status''), (''aria-live'', ''polite'')] newBox
       [Text (k + 1) [CHR 0x0A] None,
        Element (k + 2) ''svg''
          [(''xmlns'', ''http://www.w3.org/2000/svg''), (''viewBox'', ''0 0 16 16''),
           (''width'', ''16''), (''height'', ''16''), (''fill'', ''currentColor''),
           (''aria-hidden'', ''true'')] newBox
          [Element (k + 3) ''path'' [(''d'', if isError then ''alert'' else ''check'')] newBox []],
        Text (k + 4) [CHR 0x0A] None,
        Element (k + 5) ''span'' [] newBox [Text (k + 6) message None],
        Text (k + 7) [CHR 0x0A] None]"

definition showNotification :: "string \<Rightarrow> bool \<Rightarrow> world \<Rightarrow> outcome" where
  "showNotification message isError w =
     (let w1 = (case querySelector [[Cls ''pr-sorter-notification'']] (doc w) of
                  None \<Rightarrow> w
                | Some existing \<Rightarrow> w\<lparr>doc := removeNode (nid existing) (doc w)\<rparr>);
          notification = notificationNode (fresh w1) message isError;
          w2 = w1\<lparr>fresh := fresh w1 + 8\<rparr>
      in case documentBody (doc w2) of
           None \<Rightarrow> Threw TypeError w2
         | Some body \<Rightarrow>
            (case insertNode (nid body) notification None (doc w2) of
               Abrupt e \<Rightarrow> Threw e w2
             | Normal d' \<Rightarrow>
                Returned (w2\<lparr>doc := d',
                   timers := timers w2 @
                     [(nextTimer w2, 0, NotificationShow (nid notification)),
                      (nextTimer w2 + 1, 2000, NotificationHide (nid notification))],
                   nextTimer := nextTimer w2 + 2\<rparr>)))"

section \<open>Sorting (sorting module)\<close>

definition SORT_OPTIONS :: "string list" where
  \<comment> \<open>\<open>Object.values(SORT_OPTIONS)\<close>, in the order the object literal lists them\<close>
  "SORT_OPTIONS = [''date-oldest'', ''date-newest'', ''resolved-last'', ''unresolved-last'']"

definition dateOf :: "(string \<Rightarrow> int option) \<Rightarrow> node \<Rightarrow> int option" where
  \<comment> \<open>the time value of
      \<open>time ? new Date(time.getAttribute("datetime") || 0) : new Date(0)\<close>; None is NaN\<close>
  "dateOf parse a =
     (case querySelector selTime a of
        None \<Rightarrow> Some 0
      | Some t \<Rightarrow> (case getAttribute t ''datetime'' of
                     None \<Rightarrow> Some 0
                   | Some v \<Rightarrow> if v = [] then Some 0 else parse v))"

definition dateDiff :: "int option \<Rightarrow> int option \<Rightarrow> int option" where
  \<comment> \<open>\<open>dateA - dateB\<close>\<close>
  "dateDiff x y = (case (x, y) of (Some a, Some b) \<Rightarrow> Some (a - b) | _ \<Rightarrow> None)"

definition compareChildren ::
  "(string \<Rightarrow> int option) \<Rightarrow> string \<Rightarrow> node \<Rightarrow> node \<Rightarrow> int option" where
  \<comment> \<open>the comparator \<open>applySorting\<close> passes to \<open>sort\<close>\<close>
  "compareChildren parse sortOption a b =
     (let dateA = dateOf parse a; dateB = dateOf parse b
      in if sortOption = ''date-newest'' then dateDiff dateB dateA
         else if sortOption = ''date-oldest'' then dateDiff dateA dateB
         else if sortOption = ''resolved-last'' then
           (let resolvedA = isCommentResolved a; resolvedB = isCommentResolved b
            in if resolvedA \<noteq> resolvedB then Some (if resolvedA then 1 else - 1)
               else dateDiff dateA dateB)
         else if sortOption = ''unresolved-last'' then
           (let unresolvedA = \<not> isCommentResolved a; unresolvedB = \<not> isCommentResolved b
            in if unresolvedA \<noteq> unresolvedB then Some (if unresolvedA then - 1 else 1)
               else dateDiff dateA dateB)
         else dateDiff dateA dateB)"

definition sortCompare :: "('a \<Rightarrow> 'a \<Rightarrow> int option) \<Rightarrow> 'a \<Rightarrow> 'a \<Rightarrow> int" where
  \<comment> \<open>what \<open>Array.prototype.sort\<close> makes of a comparator's result: NaN counts as 0\<close>
  "sortCompare cmp x y = (case cmp x y of None \<Rightarrow> 0 | Some v \<Rightarrow> v)"

fun insortBy :: "('a \<Rightarrow> 'a \<Rightarrow> int option) \<Rightarrow> 'a \<Rightarrow> 'a list \<Rightarrow> 'a list" where
  "insortBy cmp x [] = [x]"
| "insortBy cmp x (y # ys) =
     (if sortCompare cmp x y \<le> 0 then x # y # ys else y # insortBy cmp x ys)"

definition arraySort :: "('a \<Rightarrow> 'a \<Rightarrow> int option) \<Rightarrow> 'a list \<Rightarrow> 'a list" where
  \<comment> \<open>\<open>array.sort(cmp)\<close>, which is stable: a stable insertion sort. For a consistent
      comparator every stable sort gives this list; when a date is NaN the comparator is
      not consistent and the engine may give another permutation of the same elements\<close>
  "arraySort cmp xs = foldr (insortBy cmp) xs []"

fun appendAll :: "nat \<Rightarrow> node list \<Rightarrow> node \<Rightarrow> error option \<times> node" where
  \<comment> \<open>the \<open>forEach\<close> of \<open>reorderElements\<close>; a throw ends it\<close>
  "appendAll container [] d = (None, d)"
| "appendAll container (el # els) d =
     (case appendChild container (nid el) d of
        Abrupt e \<Rightarrow> (Some e, d)
      | Normal d' \<Rightarrow> appendAll container els d')"

definition reorderElements :: "node list \<Rightarrow> node option \<Rightarrow> node \<Rightarrow> error option \<times> node" where
  "reorderElements sortedElements container d =
     (case container of
        None \<Rightarrow> (None, d)
      | Some c \<Rightarrow> if sortedElements = [] then (None, d) else appendAll (nid c) sortedElements d)"

definition getSortLabel :: "string \<Rightarrow> string" where
  "getSortLabel sortOption =
     (if sortOption = ''date-oldest'' then ''Oldest first''
      else if sortOption = ''date-newest'' then ''Newest first''
      else sortOption)"

definition announceSort :: "string \<Rightarrow> world \<Rightarrow> outcome" where
  \<comment> \<open>the last lines of \<open>applySorting\<close>: the indicator and the notification, once the
      UI module's functions are there\<close>
  "announceSort sortOption w =
     (if uiLoaded w
      then showNotification (''Comments sorted: '' @ getSortLabel sortOption) False
             (w\<lparr>doc := updateSortIndicator sortOption (doc w)\<rparr>)
      else Returned w)"

definition applySorting :: "(string \<Rightarrow> int option) \<Rightarrow> string \<Rightarrow> world \<Rightarrow> outcome" where
  "applySorting parse sortOption w =
     (let w1 = savePreference sortOption (w\<lparr>state := (state w)\<lparr>currentSort := sortOption\<rparr>\<rparr>)
      in case querySelector [[Cls ''js-discussion'']] (doc w1) of
           None \<Rightarrow>
             Returned (w1\<lparr>console := console w1 @
               [''[PR Enhancer] Could not find .js-discussion container'']\<rparr>)
         | Some container \<Rightarrow>
            if children container = [] then Returned w1
            else let sortedChildren =
                       arraySort (compareChildren parse sortOption) (children container)
                 in (case reorderElements sortedChildren (Some container) (doc w1) of
                       (Some e, d') \<Rightarrow> Threw e (w1\<lparr>doc := d'\<rparr>)
                     | (None, d') \<Rightarrow> announceSort sortOption (w1\<lparr>doc := d'\<rparr>)))"

fun indexOf :: "'a list \<Rightarrow> 'a \<Rightarrow> int" where
  \<comment> \<open>\<open>xs.indexOf(x)\<close>: the first position of x, or -1\<close>
  "indexOf [] x = - 1"
| "indexOf (y # ys) x = (if y = x then 0 else (let i = indexOf ys x in if i < 0 then - 1 else i + 1))"

definition toggleSort :: "(string \<Rightarrow> int option) \<Rightarrow> world \<Rightarrow> outcome" where
  "toggleSort parse w =
     (let options = SORT_OPTIONS;
          currentIndex = indexOf options (currentSort (state w));
          nextIndex = (currentIndex + 1) mod int (length options)
      in applySorting parse (options ! nat nextIndex) w)"

section \<open>Merge status placement (UI module)\<close>

fun firstQuery :: "selector list \<Rightarrow> node \<Rightarrow> node option" where
  \<comment> \<open>the loop over a list of selectors that stops at the first one that finds a node\<close>
  "firstQuery [] d = None"
| "firstQuery (sel # sels) d =
     (case querySelector sel d of None \<Rightarrow> firstQuery sels d | Some n \<Rightarrow> Some n)"

definition findMergeBox :: "node \<Rightarrow> node option" where
  \<comment> \<open>the search for the merge box at the start of \<open>moveMergeStatusToTop\<close>\<close>
  "findMergeBox d =
     (case firstQuery [[[Ident ''partial-pull-merging'']], [[Cls ''merge-status-list'']],
                       [[Cls ''branch-action-state-container'']], [[Cls ''merge-pr'']],
                       [[Cls ''js-merge-pr'']]] d of
        Some mergeBox \<Rightarrow> Some mergeBox
      | None \<Rightarrow>
         (case firstQuery [[[Cls ''merge-message'']], [[Cls ''branch-action-body'']]] d of
            None \<Rightarrow> None
          | Some mergeContainer \<Rightarrow>
             (case closest [[Cls ''branch-action-item'']] (nid mergeContainer) d of
                Some item \<Rightarrow> Some item
              | None \<Rightarrow> Some mergeContainer)))"

definition restoreMarker :: "nat \<Rightarrow> string" where
  "restoreMarker t = ''pr-sorter-restore-marker-'' @ digits t"

definition recordPosition :: "nat \<Rightarrow> world \<Rightarrow> node" where
  \<comment> \<open>the page after \<open>moveMergeStatusToTop\<close> has stored the original position of the
      merge box k in its data attributes\<close>
  "recordPosition k w =
     (let d = doc w;
          originalParent = parentNode k d;
          originalNextSibling = nextSibling k d;
          d1 = setAttribute k ''data-moved-to-top'' ''true'' d;
          d2 = setAttribute k ''data-original-parent-id''
                 (case originalParent of
                    None \<Rightarrow> []
                  | Some p \<Rightarrow> if nid p = nid d then [] else elId p) d1
      in case originalNextSibling of
           None \<Rightarrow> d2
         | Some sib \<Rightarrow>
            (let d3 = (if elId sib = [] then updNode (nid sib) (setId (restoreMarker (now w))) d2
                       else d2);
                 sibId = (if elId sib = [] then restoreMarker (now w) else elId sib)
             in setAttribute k ''data-original-next-sibling-id'' sibId d3))"

definition moveMergeStatusToTop :: "world \<Rightarrow> outcome" where
  "moveMergeStatusToTop w =
     (if \<not> isConversationTab w then Returned w
      else case findMergeBox (doc w) of
        None \<Rightarrow> Returned w
      | Some mergeBox \<Rightarrow>
         if getAttribute mergeBox ''data-moved-to-top'' = Some ''true'' then Returned w
         else (case querySelector [[Cls ''pr-comment-sorter-controls'']] (doc w) of
            None \<Rightarrow> Returned w
          | Some sortControls \<Rightarrow>
             (case parentNode (nid sortControls) (doc w) of
                None \<Rightarrow> Returned w
              | Some controlsParent \<Rightarrow>
                 (let d' = recordPosition (nid mergeBox) w
                  in case insertBefore (nid controlsParent) (nid mergeBox)
                            (map_option nid (nextSibling (nid sortControls) d')) d' of
                       Abrupt e \<Rightarrow> Threw e (w\<lparr>doc := d'\<rparr>)
                     | Normal d'' \<Rightarrow> Returned (w\<lparr>doc := d''\<rparr>)))))"

definition dataValue :: "node \<Rightarrow> string \<Rightarrow> string" where
  \<comment> \<open>a data attribute read for its truth value: absent counts as empty\<close>
  "dataValue n name = (case getAttribute n name of None \<Rightarrow> [] | Some v \<Rightarrow> v)"

definition restoreTarget :: "node \<Rightarrow> node \<Rightarrow> node option" where
  \<comment> \<open>the parent \<open>restoreMergeStatusPosition\<close> puts the merge box under\<close>
  "restoreTarget mergeBox d =
     (let byId = (if dataValue mergeBox ''data-original-parent-id'' \<noteq> []
                  then getElementById (dataValue mergeBox ''data-original-parent-id'') d
                  else None)
      in case byId of
           Some p \<Rightarrow> Some p
         | None \<Rightarrow>
            (case querySelector [[Ident ''discussion_bucket'']] d of
               Some p \<Rightarrow> Some p
             | None \<Rightarrow>
                (case querySelector [[Cls ''discussion-timeline'']] d of
                   Some p \<Rightarrow> Some p
                 | None \<Rightarrow> documentBody d)))"

definition cleanUp :: "nat \<Rightarrow> node \<Rightarrow> node" where
  \<comment> \<open>the three \<open>delete mergeBox.dataset...\<close> at the end of the restore\<close>
  "cleanUp k d =
     removeAttribute k ''data-original-next-sibling-id''
       (removeAttribute k ''data-original-parent-id''
         (removeAttribute k ''data-moved-to-top'' d))"

definition restoreMergeStatusPosition :: "world \<Rightarrow> outcome" where
  "restoreMergeStatusPosition w =
     (case querySelector [[AttrEq ''data-moved-to-top'' ''true'']] (doc w) of
        None \<Rightarrow> Returned w
      | Some mergeBox \<Rightarrow>
         (let originalParent = restoreTarget mergeBox (doc w);
              originalNextSibling =
                (if dataValue mergeBox ''data-original-next-sibling-id'' \<noteq> []
                 then getElementById (dataValue mergeBox ''data-original-next-sibling-id'') (doc w)
                 else None)
          in case originalParent of
               None \<Rightarrow> Returned (w\<lparr>doc := cleanUp (nid mergeBox) (doc w)\<rparr>)
             | Some p \<Rightarrow>
                (case insertBefore (nid p) (nid mergeBox) (map_option nid originalNextSibling)
                        (doc w) of
                   Abrupt e \<Rightarrow> Threw e w
                 | Normal d' \<Rightarrow> Returned (w\<lparr>doc := cleanUp (nid mergeBox) d'\<rparr>))))"

section \<open>The content script: mutation observer and messages\<close>

record mutationRecord =
  target :: nat

definition ownMutation :: "world \<Rightarrow> mutationRecord \<Rightarrow> bool" where
  \<comment> \<open>\<open>target.closest && target.closest(".pr-comment-sorter-controls,
      .pr-sorter-notification")\<close>, the target looked up in the page\<close>
  "ownMutation w m =
     (case lookup (target m) (doc w) of
        None \<Rightarrow> False
      | Some t \<Rightarrow>
         isElement t \<and>
         closest [[Cls ''pr-comment-sorter-controls''], [Cls ''pr-sorter-notification'']]
           (target m) (doc w) \<noteq> None)"

fun anyOwn :: "world \<Rightarrow> mutationRecord list \<Rightarrow> bool" where
  \<comment> \<open>the \<open>for\<close> loop of the observer callback: true when it reaches its \<open>return\<close>\<close>
  "anyOwn w [] = False"
| "anyOwn w (mutation # mutations) = (if ownMutation w mutation then True else anyOwn w mutations)"

definition clearTimeout :: "nat \<Rightarrow> world \<Rightarrow> world" where
  "clearTimeout h w = w\<lparr>timers := filter (\<lambda>(h', delay, t). h' \<noteq> h) (timers w)\<rparr>"

definition observerCallback :: "mutationRecord list \<Rightarrow> world \<Rightarrow> world" where
  \<comment> \<open>the callback given to \<open>new MutationObserver\<close>; a timer handle is truthy when it
      is not 0\<close>
  "observerCallback mutations w =
     (if anyOwn w mutations then w
      else let w1 = (case debounceTimer (state w) of
                       None \<Rightarrow> w
                     | Some h \<Rightarrow> if h \<noteq> 0 then clearTimeout h w else w);
               h' = nextTimer w1
           in w1\<lparr>timers := timers w1 @ [(h', 300, HandleMutations)],
                 nextTimer := h' + 1,
                 state := (state w1)\<lparr>debounceTimer := Some h'\<rparr>\<rparr>)"

definition schedulesPass :: "mutationRecord list \<Rightarrow> world \<Rightarrow> bool" where
  \<comment> \<open>the callback has set a timer for \<open>handleMutations\<close>\<close>
  "schedulesPass mutations w =
     ((nextTimer w, 300, HandleMutations) \<in> set (timers (observerCallback mutations w)))"

record request =
  action :: string
  sortOption :: string
  shouldMove :: bool

datatype response =
    Success
  | Status string nat bool
  | Pong bool
  | ErrorResponse string

definition getCommentContainers :: "node \<Rightarrow> node list \<times> node list \<times> node list" where
  \<comment> \<open>timeline, review, discussion\<close>
  "getCommentContainers d =
     (filter (\<lambda>el. querySelector selTime el \<noteq> None) (querySelectorAll [[Cls ''js-timeline-item'']] d),
      querySelectorAll [[Cls ''review-comment'']] d,
      querySelectorAll [[Cls ''timeline-comment-group'']] d)"

definition errorMessage :: "error \<Rightarrow> string" where
  "errorMessage e = (case e of TypeError \<Rightarrow> ''TypeError''
     | HierarchyRequestError \<Rightarrow> ''HierarchyRequestError'' | NotFoundError \<Rightarrow> ''NotFoundError'')"

definition respond :: "outcome \<Rightarrow> response \<times> world" where
  \<comment> \<open>the \<open>try\<close> of the listener: success after a return, the error after a throw\<close>
  "respond out = (case out of Returned w \<Rightarrow> (Success, w)
                  | Threw e w \<Rightarrow> (ErrorResponse (errorMessage e), w))"

definition onMessage :: "(string \<Rightarrow> int option) \<Rightarrow> request \<Rightarrow> world \<Rightarrow> response \<times> world" where
  \<comment> \<open>the listener of \<open>setupChromeMessageListener\<close>\<close>
  "onMessage parse req w =
     (if action req = ''sort'' then respond (applySorting parse (sortOption req) w)
      else if action req = ''toggleSort'' then respond (toggleSort parse w)
      else if action req = ''getStatus'' then
        (case getCommentContainers (doc w) of
           (timeline, review, discussion) \<Rightarrow>
             (Status (currentSort (state w)) (length timeline + length review) True, w))
      else if action req = ''updateMergeStatusPreference'' then
        respond (if shouldMove req then moveMergeStatusToTop w else restoreMergeStatusPosition w)
      else if action req = ''ping'' then (Pong (isInitialized (state w)), w)
      else (ErrorResponse ''Unknown action'', w))"

definition sameSettings :: "world \<Rightarrow> world \<Rightarrow> bool" where
  \<comment> \<open>two worlds agree on the engine state, the two stores and the loaded UI functions\<close>
  "sameSettings w w' =
     (state w' = state w \<and> syncStore w' = syncStore w \<and> localStore w' = localStore w \<and>
      uiLoaded w' = uiLoaded w)"

section \<open>Pages on which a sort can be followed\<close>

fun shallow :: "node \<Rightarrow> node" where
  \<comment> \<open>a node without its children: identity, tag, attributes, layout\<close>
  "shallow (Element i t a b cs) = Element i t a b []"
| "shallow (Text i s e) = Text i s e"

definition tracks :: "nat set \<Rightarrow> node \<Rightarrow> node \<Rightarrow> bool" where
  \<comment> \<open>every node of the page d' is, by identity, a node of the page d with the same
      identities in its subtree, and with the same tag and attributes unless its
      identity is in S\<close>
  "tracks S d d' =
     (\<forall>n' \<in> set (nodes d'). \<exists>n \<in> set (nodes d).
        nid n = nid n' \<and> set (nids n) = set (nids n') \<and>
        (nid n' \<notin> S \<longrightarrow> shallow n = shallow n'))"

definition uiApart :: "node \<Rightarrow> node \<Rightarrow> bool" where
  \<comment> \<open>the injected UI lies apart from the node cn of the page d: no sort button and no
      notification is inside cn, is cn or is around cn, and cn does not hold the body\<close>
  "uiApart d cn =
     ((\<forall>n \<in> set (nodes d).
         nid n \<in> set (nids cn) \<or> nid cn \<in> set (nids n) \<longrightarrow>
         \<not> matches [[Cls ''pr-sorter-btn'', AttrHas ''data-sort'']] n \<and>
         \<not> matches [[Cls ''pr-sorter-notification'']] n) \<and>
      (\<forall>n \<in> set (nodes cn). tagName n \<noteq> ''body'' \<and> tagName n \<noteq> ''frameset''))"

definition freshIds :: "world \<Rightarrow> bool" where
  \<comment> \<open>the identity the next created node gets is above every identity of the page\<close>
  "freshIds w = (\<forall>k \<in> set (nids (doc w)). k < fresh w)"

section \<open>Example pages\<close>

definition plainBox :: layout where
  "plainBox = \<lparr>offsetParentNull = False, offsetHeight = 20, offsetWidth = 300\<rparr>"

definition longThreadPage :: node where
  \<comment> \<open>a page with one unresolved thread whose comment body has 61 characters\<close>
  "longThreadPage =
     Element 0 ''#document'' [] plainBox
      [Element 1 ''html'' [] plainBox
        [Element 2 ''body'' [] plainBox
          [Element 3 ''details'' [(''data-resolved'', ''false'')] plainBox
            [Element 4 ''div'' [(''class'', ''comment-body'')] plainBox
              [Text 5 (replicate 61 (CHR ''a'')) None]]]]]"

definition filesTabWorld :: world where
  \<comment> \<open>the files tab of a pull request, with a conversation container that is rendered\<close>
  "filesTabWorld =
     \<lparr>pathname = ''/org/repo/pull/5/files'', hash = [],
      doc = Element 0 ''#document'' [] plainBox
        [Element 1 ''html'' [] plainBox
          [Element 2 ''body'' [] plainBox
            [Element 3 ''div'' [(''id'', ''discussion_bucket'')] plainBox []]]],
      fresh = 4, now = 1700000000000,
      state = \<lparr>currentSort = ''date-newest'', sortControlsInjected = False,
               isInitialized = True, debounceTimer = None\<rparr>,
      uiLoaded = True, syncAvailable = True, syncSetRejects = False,
      localStorageThrows = False, syncStore = [], localStore = [],
      timers = [], nextTimer = 1, console = []\<rparr>"

definition malformedDateThread :: node where
  \<comment> \<open>a timeline item whose time element carries a date that does not parse\<close>
  "malformedDateThread =
     Element 10 ''div'' [(''class'', ''js-timeline-item'')] plainBox
       [Element 11 ''relative-time'' [(''datetime'', ''not a date'')] plainBox []]"

definition childOrder :: "world \<Rightarrow> nat list option" where
  \<comment> \<open>the element children of the comment container, by identity and in order\<close>
  "childOrder w = map_option (\<lambda>c. map nid (children c)) (querySelector [[Cls ''js-discussion'']] (doc w))"



definition exampleParse :: "string \<Rightarrow> int option" where
  \<comment> \<open>the date parser on the two dates of the example page\<close>
  "exampleParse s =
     (if s = ''2024-01-01T00:00:00Z'' then Some 1704067200000
      else if s = ''2024-01-02T00:00:00Z'' then Some 1704153600000
      else None)"

definition resolvedThread :: node where
  \<comment> \<open>a thread marked resolved, dated 1 January 2024\<close>
  "resolvedThread =
     Element 11 ''div'' [(''class'', ''js-timeline-item'')] plainBox
       [Element 12 ''relative-time'' [(''datetime'', ''2024-01-01T00:00:00Z'')] plainBox [],
        Element 13 ''details'' [(''data-resolved'', ''true'')] plainBox []]"

definition unresolvedThread :: node where
  \<comment> \<open>a thread flagged not resolved, dated 2 January 2024\<close>
  "unresolvedThread =
     Element 21 ''div'' [(''class'', ''js-timeline-item'')] plainBox
       [Element 22 ''relative-time'' [(''datetime'', ''2024-01-02T00:00:00Z'')] plainBox [],
        Element 23 ''details'' [(''data-resolved'', ''false'')] plainBox []]"

definition threadsWorld :: world where
  \<comment> \<open>the conversation tab with a resolved thread followed by a newer unresolved one\<close>
  "threadsWorld =
     \<lparr>pathname = ''/org/repo/pull/5'', hash = [],
      doc = Element 0 ''#document'' [] plainBox
        [Element 1 ''html'' [] plainBox
          [Element 2 ''body'' [] plainBox
            [Element 3 ''div'' [(''id'', ''discussion_bucket'')] plainBox
              [Element 4 ''div'' [(''class'', ''js-discussion'')] plainBox
                 [resolvedThread, unresolvedThread]]]]],
      fresh = 100, now = 1700000000000,
      state = \<lparr>currentSort = ''date-newest'', sortControlsInjected = False,
               isInitialized = True, debounceTimer = None\<rparr>,
      uiLoaded = True, syncAvailable = True, syncSetRejects = False,
      localStorageThrows = False, syncStore = [], localStore = [],
      timers = [], nextTimer = 1, console = []\<rparr>"


definition threadsPage :: "node list \<Rightarrow> node" where
  \<comment> \<open>the example page with the given children of the comment container\<close>
  "threadsPage cs = Element 0 ''#document'' [] plainBox
        [Element 1 ''html'' [] plainBox
          [Element 2 ''body'' [] plainBox
            [Element 3 ''div'' [(''id'', ''discussion_bucket'')] plainBox
              [Element 4 ''div'' [(''class'', ''js-discussion'')] plainBox cs]]]]"

definition toolbarWorld :: world where
  \<comment> \<open>the conversation tab with the injected toolbar before the discussion bucket\<close>
  "toolbarWorld =
     \<lparr>pathname = ''/org/repo/pull/5'', hash = [],
      doc = Element 0 ''#document'' [] plainBox
        [Element 1 ''html'' [] plainBox
          [Element 2 ''body'' [] plainBox
            [Element 30 ''div'' [(''class'', ''pr-comment-sorter-controls'')] plainBox
              [Element 31 ''button'' [(''id'', ''pr-sorter-unresolved-btn'')] plainBox []],
             Element 3 ''div'' [(''id'', ''discussion_bucket'')] plainBox
              [Element 4 ''div'' [(''class'', ''js-discussion'')] plainBox []]]]],
      fresh = 100, now = 1700000000000,
      state = \<lparr>currentSort = ''date-newest'', sortControlsInjected = True,
               isInitialized = True, debounceTimer = None\<rparr>,
      uiLoaded = True, syncAvailable = True, syncSetRejects = False,
      localStorageThrows = False, syncStore = [], localStore = [],
      timers = [], nextTimer = 1, console = []\<rparr>"

definition sortedPage :: node where
  \<comment> \<open>the conversation tab as the engine leaves it: toolbar with the two sort buttons,
      two threads with a character-data node between them, and the last notification\<close>
  "sortedPage =
     Element 0 ''#document'' [] plainBox
       [Element 1 ''html'' [] plainBox
         [Element 2 ''body'' [] plainBox
           [Element 30 ''div'' [(''class'', ''pr-comment-sorter-controls'')] plainBox
             [Element 31 ''button''
                [(''class'', ''pr-sorter-btn active''), (''data-sort'', ''date-newest''),
                 (''aria-pressed'', ''true'')] plainBox [],
              Element 32 ''button''
                [(''class'', ''pr-sorter-btn''), (''data-sort'', ''date-oldest''),
                 (''aria-pressed'', ''false'')] plainBox []],
            Element 3 ''div'' [(''id'', ''discussion_bucket'')] plainBox
             [Element 4 ''div'' [(''class'', ''js-discussion'')] plainBox
                [resolvedThread, Text 5 [CHR 0x0A] None, unresolvedThread]],
            Element 40 ''div'' [(''class'', ''pr-sorter-notification show'')] plainBox
             [Text 41 ''Comments sorted: Newest first'' None]]]]"

definition sortedWorld :: world where
  \<comment> \<open>the world of that page\<close>
  "sortedWorld =
     \<lparr>pathname = ''/org/repo/pull/5'', hash = [], doc = sortedPage,
      fresh = 100, now = 1700000000000,
      state = \<lparr>currentSort = ''date-newest'', sortControlsInjected = True,
               isInitialized = True, debounceTimer = None\<rparr>,
      uiLoaded = True, syncAvailable = True, syncSetRejects = False,
      localStorageThrows = False, syncStore = [], localStore = [],
      timers = [], nextTimer = 1, console = []\<rparr>"

definition mergeBoxNode :: "(string \<times> string) list \<Rightarrow> node" where
  \<comment> \<open>the merge box of a pull request page, with the attributes given\<close>
  "mergeBoxNode as = Element 7 ''div'' as plainBox []"

definition mergeLayout ::
  "node list \<Rightarrow> (string \<times> string) list \<Rightarrow> node list \<Rightarrow> node list \<Rightarrow> node" where
  \<comment> \<open>a conversation tab: the sort controls, what follows them in the body, and the
      discussion bucket with the comment container, the merge area (attributes and
      children given) and what follows the merge area\<close>
  "mergeLayout afterControls areaAttrs inArea afterArea =
     Element 0 ''#document'' [] plainBox
       [Element 1 ''html'' [] plainBox
         [Element 2 ''body'' [] plainBox
           (Element 30 ''div'' [(''class'', ''pr-comment-sorter-controls'')] plainBox [] #
            afterControls @
            [Element 3 ''div'' [(''id'', ''discussion_bucket'')] plainBox
              (Element 4 ''div'' [(''class'', ''js-discussion'')] plainBox [] #
               Element 6 ''div'' areaAttrs plainBox inArea #
               afterArea)])]]"

definition mergeWorld :: "node \<Rightarrow> world" where
  \<comment> \<open>the conversation tab of a pull request showing the page given\<close>
  "mergeWorld page =
     \<lparr>pathname = ''/org/repo/pull/5'', hash = [], doc = page,
      fresh = 100, now = 1700000000000,
      state = \<lparr>currentSort = ''date-newest'', sortControlsInjected = True,
               isInitialized = True, debounceTimer = None\<rparr>,
      uiLoaded = True, syncAvailable = True, syncSetRejects = False,
      localStorageThrows = False, syncStore = [], localStore = [],
      timers = [], nextTimer = 1, console = []\<rparr>"

definition lastChildPage :: node where
  \<comment> \<open>the merge box is the only child of a merge area that has no id\<close>
  "lastChildPage =
     mergeLayout [] [(''class'', ''discussion-timeline-actions'')]
       [mergeBoxNode [(''id'', ''partial-pull-merging'')]] []"

definition siblingPage :: node where
  \<comment> \<open>the merge area has an id, and an element without id follows the merge box\<close>
  "siblingPage =
     mergeLayout [] [(''class'', ''discussion-timeline-actions''), (''id'', ''merge-area'')]
       [mergeBoxNode [(''id'', ''partial-pull-merging'')],
        Element 8 ''div'' [(''class'', ''merge-footer'')] plainBox []] []"

section \<open>Properties\<close>

lemma find_None_conv: "(find P xs = None) = (\<forall>x \<in> set xs. \<not> P x)"
  by (induction xs) auto

text \<open>
  C7. A thread element is classified unresolved exactly when one of its descendants is a
  \<open>details\<close> element whose \<open>data-resolved\<close> attribute is \<open>false\<close>; with no such
  descendant \<open>isCommentResolved\<close> returns true.
\<close>

theorem C7_unresolved_iff_flagged:
  "(\<not> isCommentResolved thread) =
     (\<exists>d \<in> set (descendants thread).
        isElement d \<and> tagName d = ''details'' \<and> getAttribute d ''data-resolved'' = Some ''false'')"
  by (auto simp: isCommentResolved_def querySelector_def selUnresolved_def matches_def
      find_None_conv)

theorem C7_unresolved_iff_flagged_witness:
  "(\<not> isCommentResolved (Element 1 ''div'' [] \<lparr>offsetParentNull = False, offsetHeight = 10, offsetWidth = 10\<rparr>
       [Element 2 ''details'' [(''data-resolved'', ''false'')]
          \<lparr>offsetParentNull = False, offsetHeight = 10, offsetWidth = 10\<rparr> []]))
   \<and> isCommentResolved (Element 1 ''div'' [] \<lparr>offsetParentNull = False, offsetHeight = 10, offsetWidth = 10\<rparr>
       [Element 2 ''details'' [(''data-resolved'', ''true'')]
          \<lparr>offsetParentNull = False, offsetHeight = 10, offsetWidth = 10\<rparr> []])"
  using C7_unresolved_iff_flagged
    [of "Element 1 ''div'' [] \<lparr>offsetParentNull = False, offsetHeight = 10, offsetWidth = 10\<rparr>
       [Element 2 ''details'' [(''data-resolved'', ''false'')]
          \<lparr>offsetParentNull = False, offsetHeight = 10, offsetWidth = 10\<rparr> []]"]
    C7_unresolved_iff_flagged
    [of "Element 1 ''div'' [] \<lparr>offsetParentNull = False, offsetHeight = 10, offsetWidth = 10\<rparr>
       [Element 2 ''details'' [(''data-resolved'', ''true'')]
          \<lparr>offsetParentNull = False, offsetHeight = 10, offsetWidth = 10\<rparr> []]"]
  by (simp add: getAttribute_def)

text \<open>
  C6. Whenever the path contains \<open>/files\<close>, \<open>/commits\<close> or \<open>/checks\<close>,
  \<open>isConversationTab\<close> returns false, whatever the fragment, the document and its
  layout are; the path \<open>/org/repo/pull/5/files\<close> is such a path.
\<close>

theorem C6_path_short_circuit:
  "strIncludes (pathname w) ''/files'' \<or> strIncludes (pathname w) ''/commits'' \<or>
   strIncludes (pathname w) ''/checks'' \<Longrightarrow> isConversationTab w = False"
  by (auto simp: isConversationTab_def)

lemma files_path_includes: "strIncludes ''/org/repo/pull/5/files'' ''/files''"
  unfolding strIncludes_def by code_simp

theorem C6_path_short_circuit_witness:
  "strIncludes (pathname filesTabWorld) ''/files'' \<and> isConversationTab filesTabWorld = False \<and>
   isConversationTab (filesTabWorld\<lparr>pathname := ''/org/repo/pull/5''\<rparr>) = True"
proof -
  have p: "pathname filesTabWorld = ''/org/repo/pull/5/files''"
    by (simp add: filesTabWorld_def)
  have h: "strIncludes (pathname filesTabWorld) ''/files''"
    unfolding p by (rule files_path_includes)
  have "isConversationTab filesTabWorld = False"
    using C6_path_short_circuit [of filesTabWorld] h by blast
  moreover have "isConversationTab (filesTabWorld\<lparr>pathname := ''/org/repo/pull/5''\<rparr>) = True"
    unfolding filesTabWorld_def isConversationTab_def tabStrategy2_def tabStrategy3_def
      tabStrategy4_def strIncludes_def
    by (simp add: querySelector_def matches_def getAttribute_def classList_def rendered_def
        plainBox_def closest_def sublist_code)
  ultimately show ?thesis using h by simp
qed

subsection \<open>What a sort leaves of the settings\<close>

lemma showNotification_settings: "sameSettings w (final (showNotification msg e w))"
  unfolding showNotification_def Let_def sameSettings_def
  by (simp split: option.split completion.split)

lemma announceSort_settings: "sameSettings w (final (announceSort m w))"
  using showNotification_settings [of "w\<lparr>doc := updateSortIndicator m (doc w)\<rparr>"]
  by (simp add: announceSort_def sameSettings_def)

lemma applySorting_settings:
  "sameSettings (savePreference m (w\<lparr>state := (state w)\<lparr>currentSort := m\<rparr>\<rparr>))
     (final (applySorting parse m w))"
proof -
  define w1 where "w1 = savePreference m (w\<lparr>state := (state w)\<lparr>currentSort := m\<rparr>\<rparr>)"
  have a: "\<And>d. sameSettings w1 (final (announceSort m (w1\<lparr>doc := d\<rparr>)))"
    using announceSort_settings [of "w1\<lparr>doc := d\<rparr>" for d] by (simp add: sameSettings_def)
  show ?thesis
    unfolding applySorting_def Let_def w1_def [symmetric]
    using a by (simp add: sameSettings_def split: option.split prod.split)
qed

lemma savePreference_state: "state (savePreference m w) = state w"
  by (simp add: savePreference_def)

lemma applySorting_currentSort: "currentSort (state (final (applySorting parse m w))) = m"
  using applySorting_settings [of m w parse] by (simp add: sameSettings_def savePreference_state)

lemma applySorting_noop:
  "querySelector [[Cls ''js-discussion'']] (doc w) = None \<or>
   (\<exists>c. querySelector [[Cls ''js-discussion'']] (doc w) = Some c \<and> children c = []) \<Longrightarrow>
   \<exists>w'. applySorting parse m w = Returned w' \<and> doc w' = doc w"
  by (auto simp: applySorting_def Let_def savePreference_def)

lemma getStatus_currentSort:
  "\<exists>n. fst (onMessage parse \<lparr>action = ''getStatus'', sortOption = so, shouldMove = mv\<rparr> w)
     = Status (currentSort (state w)) n True"
  by (simp add: onMessage_def split: prod.split)

text \<open>
  C10. \<open>applySorting(m)\<close> sets the current sort mode to m and starts the write of m to
  storage before it looks at the page: whatever the page is, the mode after the call is m
  and the stores are those \<open>savePreference(m)\<close> leaves; when \<open>chrome.storage.sync\<close> is
  there and its write succeeds, the stored preference is m. This also holds when the
  comment container is absent or has no children, where the call returns with the page
  untouched; a \<open>getStatus\<close> message afterwards reports m.
\<close>

theorem C10_mode_set_before_dom:
  "currentSort (state (final (applySorting parse m w))) = m \<and>
   syncStore (final (applySorting parse m w)) = syncStore (savePreference m w) \<and>
   localStore (final (applySorting parse m w)) = localStore (savePreference m w) \<and>
   (syncAvailable w \<and> \<not> syncSetRejects w \<longrightarrow>
      map_of (syncStore (final (applySorting parse m w))) ''sortPreference'' = Some m) \<and>
   (querySelector [[Cls ''js-discussion'']] (doc w) = None \<or>
    (\<exists>c. querySelector [[Cls ''js-discussion'']] (doc w) = Some c \<and> children c = []) \<longrightarrow>
      (\<exists>w'. applySorting parse m w = Returned w' \<and> doc w' = doc w)) \<and>
   (\<exists>n. fst (onMessage parse \<lparr>action = ''getStatus'', sortOption = [], shouldMove = False\<rparr>
              (final (applySorting parse m w))) = Status m n True)"
proof -
  have s: "sameSettings (savePreference m (w\<lparr>state := (state w)\<lparr>currentSort := m\<rparr>\<rparr>))
     (final (applySorting parse m w))"
    by (rule applySorting_settings)
  have sync: "syncStore (final (applySorting parse m w)) = syncStore (savePreference m w)"
    using s by (simp add: sameSettings_def savePreference_def)
  have loc: "localStore (final (applySorting parse m w)) = localStore (savePreference m w)"
    using s by (simp add: sameSettings_def savePreference_def)
  have persisted: "syncAvailable w \<and> \<not> syncSetRejects w \<longrightarrow>
      map_of (syncStore (final (applySorting parse m w))) ''sortPreference'' = Some m"
    unfolding sync by (simp add: savePreference_def update_conv')
  have status: "\<exists>n. fst (onMessage parse \<lparr>action = ''getStatus'', sortOption = [], shouldMove = False\<rparr>
              (final (applySorting parse m w))) = Status m n True"
    using getStatus_currentSort [of parse "[]" False "final (applySorting parse m w)"]
    by (simp add: applySorting_currentSort)
  show ?thesis
    using applySorting_currentSort sync loc persisted status applySorting_noop [of w parse m]
    by blast
qed

lemma noContainer: "querySelector [[Cls ''js-discussion'']] (doc filesTabWorld) = None"
  by (simp add: filesTabWorld_def querySelector_def matches_def classList_def getAttribute_def)

theorem C10_mode_set_before_dom_witness:
  "syncAvailable filesTabWorld \<and> \<not> syncSetRejects filesTabWorld \<and>
   querySelector [[Cls ''js-discussion'']] (doc filesTabWorld) = None \<and>
   currentSort (state filesTabWorld) = ''date-newest'' \<and>
   currentSort (state (final (applySorting (\<lambda>s. None) ''resolved-last'' filesTabWorld)))
     = ''resolved-last'' \<and>
   map_of (syncStore (final (applySorting (\<lambda>s. None) ''resolved-last'' filesTabWorld)))
     ''sortPreference'' = Some ''resolved-last'' \<and>
   (\<exists>w'. applySorting (\<lambda>s. None) ''resolved-last'' filesTabWorld = Returned w' \<and>
         doc w' = doc filesTabWorld)"
proof -
  have a: "syncAvailable filesTabWorld \<and> \<not> syncSetRejects filesTabWorld"
    by (simp add: filesTabWorld_def)
  have c: "currentSort (state filesTabWorld) = ''date-newest''"
    by (simp add: filesTabWorld_def)
  show ?thesis
    using C10_mode_set_before_dom [of "\<lambda>s. None" "''resolved-last''" filesTabWorld] a c noContainer
    by blast
qed

subsection \<open>The toggle\<close>

lemma indexOf_options:
  "indexOf SORT_OPTIONS cs =
     (if cs = ''date-oldest'' then 0 else if cs = ''date-newest'' then 1
      else if cs = ''resolved-last'' then 2 else if cs = ''unresolved-last'' then 3 else - 1)"
  by (simp add: SORT_OPTIONS_def)

text \<open>
  C1 (as the code has it). \<open>toggleSort()\<close> advances the current mode through all four
  values of \<open>SORT_OPTIONS\<close> in their order: oldest first, newest first, resolved last,
  unresolved last, and from there (or from any other value) back to oldest first.
\<close>

theorem C1_toggle_cycles_four_modes:
  "currentSort (state (final (toggleSort parse w))) =
     (if currentSort (state w) = ''date-oldest'' then ''date-newest''
      else if currentSort (state w) = ''date-newest'' then ''resolved-last''
      else if currentSort (state w) = ''resolved-last'' then ''unresolved-last''
      else ''date-oldest'')"
proof -
  have len: "int (length SORT_OPTIONS) = 4" by (simp add: SORT_OPTIONS_def)
  have nth: "SORT_OPTIONS ! 0 = ''date-oldest''" "SORT_OPTIONS ! 1 = ''date-newest''"
    "SORT_OPTIONS ! 2 = ''resolved-last''" "SORT_OPTIONS ! 3 = ''unresolved-last''"
    by (simp_all add: SORT_OPTIONS_def)
  show ?thesis
    unfolding toggleSort_def Let_def applySorting_currentSort len indexOf_options
    using nth by (simp add: eval_nat_numeral)
qed

theorem C1_toggle_cycles_four_modes_witness:
  "currentSort (state (final (toggleSort (\<lambda>s. None) filesTabWorld))) = ''resolved-last'' \<and>
   currentSort (state (final (toggleSort (\<lambda>s. None)
     (filesTabWorld\<lparr>state := (state filesTabWorld)\<lparr>currentSort := ''unresolved-last''\<rparr>\<rparr>))))
     = ''date-oldest''"
  using C1_toggle_cycles_four_modes [of "\<lambda>s. None" filesTabWorld]
    C1_toggle_cycles_four_modes [of "\<lambda>s. None"
      "filesTabWorld\<lparr>state := (state filesTabWorld)\<lparr>currentSort := ''unresolved-last''\<rparr>\<rparr>"]
  by (simp add: filesTabWorld_def)

text \<open>
  Starting from newest first, one toggle selects resolved last, and two toggles do not
  lead back to newest first.
\<close>

theorem C1_toggle_two_cycle_counterexample:
  "currentSort (state filesTabWorld) = ''date-newest'' \<and>
   currentSort (state (final (toggleSort (\<lambda>s. None) filesTabWorld))) = ''resolved-last'' \<and>
   currentSort (state (final (toggleSort (\<lambda>s. None)
      (final (toggleSort (\<lambda>s. None) filesTabWorld))))) \<noteq> ''date-newest''"
proof -
  have len: "int (length SORT_OPTIONS) = 4" by (simp add: SORT_OPTIONS_def)
  have nth: "SORT_OPTIONS ! 2 = ''resolved-last''" "SORT_OPTIONS ! 3 = ''unresolved-last''"
    by (simp_all add: SORT_OPTIONS_def)
  have c: "currentSort (state filesTabWorld) = ''date-newest''"
    by (simp add: filesTabWorld_def)
  have one: "currentSort (state (final (toggleSort (\<lambda>s. None) filesTabWorld))) = ''resolved-last''"
    unfolding toggleSort_def Let_def applySorting_currentSort len indexOf_options c
    using nth by (simp add: eval_nat_numeral)
  have two: "currentSort (state (final (toggleSort (\<lambda>s. None)
      (final (toggleSort (\<lambda>s. None) filesTabWorld))))) = ''unresolved-last''"
    unfolding toggleSort_def [of _ "final (toggleSort (\<lambda>s. None) filesTabWorld)"] Let_def
      applySorting_currentSort len indexOf_options one
    using nth by (simp add: eval_nat_numeral)
  show ?thesis using c one two by simp
qed

subsection \<open>Snippets of unresolved conversations\<close>

lemma snippet_unresolvedItem:
  "snippet (unresolvedItem details index) =
     (if length (normalisedBody details) > 60 then take 60 (normalisedBody details) @ ''...''
      else normalisedBody details)"
  by (simp add: unresolvedItem_def Let_def)

lemma getUnresolvedConversations_nth:
  "i < length (querySelectorAll selUnresolved d) \<Longrightarrow>
   getUnresolvedConversations d ! i = unresolvedItem (querySelectorAll selUnresolved d ! i) i"
  by (simp add: getUnresolvedConversations_def Let_def)

lemma getUnresolvedConversations_length:
  "length (getUnresolvedConversations d) = length (querySelectorAll selUnresolved d)"
  by (simp add: getUnresolvedConversations_def Let_def)

text \<open>
  C8 (as the code has it). The snippet of every entry is the normalised body text when that
  has at most 60 characters, and otherwise its first 60 characters followed by the three
  characters of the ellipsis: at most 63 characters.
\<close>

theorem C8_snippet_at_most_63:
  "i < length (getUnresolvedConversations d) \<Longrightarrow>
   snippet (getUnresolvedConversations d ! i) =
     (if length (normalisedBody (querySelectorAll selUnresolved d ! i)) > 60
      then take 60 (normalisedBody (querySelectorAll selUnresolved d ! i)) @ ''...''
      else normalisedBody (querySelectorAll selUnresolved d ! i)) \<and>
   length (snippet (getUnresolvedConversations d ! i)) \<le> 63 \<and>
   (length (normalisedBody (querySelectorAll selUnresolved d ! i)) \<le> 60 \<longrightarrow>
      length (snippet (getUnresolvedConversations d ! i)) \<le> 60)"
proof -
  assume "i < length (getUnresolvedConversations d)"
  then have i: "i < length (querySelectorAll selUnresolved d)"
    by (simp add: getUnresolvedConversations_length)
  show ?thesis
    unfolding getUnresolvedConversations_nth [OF i] snippet_unresolvedItem by simp
qed

lemma collapse_as: "collapseFrom b (replicate n (CHR ''a'')) = replicate n (CHR ''a'')"
  by (induction n arbitrary: b) (simp_all add: isSpace_def)

lemma longThread_query:
  "querySelectorAll selUnresolved longThreadPage =
     [Element 3 ''details'' [(''data-resolved'', ''false'')] plainBox
       [Element 4 ''div'' [(''class'', ''comment-body'')] plainBox
         [Text 5 (replicate 61 (CHR ''a'')) None]]]"
  by (simp add: longThreadPage_def querySelectorAll_def selUnresolved_def matches_def
      getAttribute_def)

lemma trim_as: "trim (replicate n (CHR ''a'')) = replicate n (CHR ''a'')"
proof -
  have "dropWhile isSpace (replicate n (CHR ''a'')) = replicate n (CHR ''a'')"
    by (cases n) (simp_all add: isSpace_def)
  then show ?thesis by (simp add: trim_def)
qed

lemma longThread_body:
  "normalisedBody (Element 3 ''details'' [(''data-resolved'', ''false'')] plainBox
       [Element 4 ''div'' [(''class'', ''comment-body'')] plainBox
         [Text 5 (replicate 61 (CHR ''a'')) None]]) = replicate 61 (CHR ''a'')"
  by (simp add: normalisedBody_def querySelector_def matches_def getAttribute_def classList_def
      collapseSpaces_def collapse_as trim_as)

lemma longThread_snippet:
  "map snippet (getUnresolvedConversations longThreadPage) = [replicate 60 (CHR ''a'') @ ''...'']"
  by (simp add: getUnresolvedConversations_def Let_def longThread_query snippet_unresolvedItem
      longThread_body)

theorem C8_snippet_at_most_63_witness:
  "0 < length (getUnresolvedConversations longThreadPage) \<and>
   snippet (getUnresolvedConversations longThreadPage ! 0) = replicate 60 (CHR ''a'') @ ''...'' \<and>
   length (snippet (getUnresolvedConversations longThreadPage ! 0)) \<le> 63"
proof -
  have l: "0 < length (getUnresolvedConversations longThreadPage)"
    by (simp add: getUnresolvedConversations_length longThread_query)
  show ?thesis
    using l C8_snippet_at_most_63 [OF l]
    by (simp add: longThread_query longThread_body)
qed

text \<open>
  A comment body of 61 characters gives a snippet of 63 characters.
\<close>

theorem C8_snippet_60_counterexample:
  "\<not> (\<forall>e \<in> set (getUnresolvedConversations longThreadPage). length (snippet e) \<le> 60)"
proof -
  have "set (map snippet (getUnresolvedConversations longThreadPage))
          = {replicate 60 (CHR ''a'') @ ''...''}"
    unfolding longThread_snippet by simp
  then have "replicate 60 (CHR ''a'') @ ''...''
               \<in> snippet ` set (getUnresolvedConversations longThreadPage)"
    by simp
  then obtain e where "e \<in> set (getUnresolvedConversations longThreadPage)"
    and "snippet e = replicate 60 (CHR ''a'') @ ''...''"
    by auto
  then have "e \<in> set (getUnresolvedConversations longThreadPage) \<and> length (snippet e) = 63"
    by simp
  then show ?thesis by force
qed

subsection \<open>Comment data\<close>

text \<open>
  C9. \<open>extractCommentData\<close> never throws: it returns null exactly for a null or
  undefined argument, and a record otherwise. For an element the record holds the
  element, its time stamp (an invalid date when the attribute does not parse, which is no
  exception), its resolution and whether a time element was found, and nothing is logged.
  When the body throws (the argument is no element), the catch logs a warning and returns
  the default record: the synthetic time stamp \<open>Date.now() + index\<close>, not resolved,
  no time element.
\<close>

theorem C9_extraction_never_throws:
  "\<exists>r log. extractCommentData parse dateNow elem index = (Normal r, log) \<and>
     (r = None \<longleftrightarrow> elem = None) \<and> (elem = None \<longrightarrow> log = []) \<and>
     (\<forall>el. elem = Some el \<longrightarrow>
        (isElement el \<longrightarrow>
           log = [] \<and>
           r = Some \<lparr>element = el,
                      timestamp =
                        (case querySelector selTime el of
                           None \<Rightarrow> Some (int dateNow + index)
                         | Some t \<Rightarrow> (case getAttribute t ''datetime'' of
                                        None \<Rightarrow> Some (int dateNow)
                                      | Some v \<Rightarrow> if v \<noteq> [] then parse v else Some (int dateNow))),
                      resolved = isCommentResolved el,
                      hasTimeElement = (querySelector selTime el \<noteq> None)\<rparr>) \<and>
        (\<not> isElement el \<longrightarrow>
           log \<noteq> [] \<and>
           r = Some \<lparr>element = el, timestamp = Some (int dateNow + index),
                      resolved = False, hasTimeElement = False\<rparr>))"
proof (cases elem)
  case None
  then show ?thesis by (simp add: extractCommentData_def)
next
  case (Some el)
  show ?thesis
  proof (cases "isElement el")
    case True
    then show ?thesis
      using Some
      by (simp add: extractCommentData_def querySelectorOn_def isCommentResolvedOn_def
          isCommentResolved_def Let_def split: option.split)
  next
    case False
    then show ?thesis
      using Some by (simp add: extractCommentData_def querySelectorOn_def Let_def)
  qed
qed

theorem C9_extraction_never_throws_witness:
  "extractCommentData (\<lambda>s. None) 1700000000000 (Some malformedDateThread) 2 =
     (Normal (Some \<lparr>element = malformedDateThread, timestamp = None, resolved = True,
                     hasTimeElement = True\<rparr>), []) \<and>
   (\<exists>log. log \<noteq> [] \<and>
      extractCommentData (\<lambda>s. None) 1700000000000 (Some (Text 12 ''x'' None)) 2 =
       (Normal (Some \<lparr>element = Text 12 ''x'' None, timestamp = Some 1700000000002,
                       resolved = False, hasTimeElement = False\<rparr>), log)) \<and>
   extractCommentData (\<lambda>s. None) 1700000000000 None 2 = (Normal None, [])"
proof -
  have q: "querySelector selTime malformedDateThread
             = Some (Element 11 ''relative-time'' [(''datetime'', ''not a date'')] plainBox [])"
    by (simp add: malformedDateThread_def querySelector_def selTime_def matches_def)
  have r: "isCommentResolved malformedDateThread"
    by (simp add: malformedDateThread_def isCommentResolved_def querySelector_def
        selUnresolved_def matches_def)
  have e: "isElement malformedDateThread" by (simp add: malformedDateThread_def)
  have a: "extractCommentData (\<lambda>s. None) 1700000000000 (Some malformedDateThread) 2 =
     (Normal (Some \<lparr>element = malformedDateThread, timestamp = None, resolved = True,
                     hasTimeElement = True\<rparr>), [])"
    using C9_extraction_never_throws [of "\<lambda>s. None" 1700000000000 "Some malformedDateThread" 2]
      e r q
    by (auto simp: getAttribute_def)
  have b: "\<exists>log. log \<noteq> [] \<and>
      extractCommentData (\<lambda>s. None) 1700000000000 (Some (Text 12 ''x'' None)) 2 =
       (Normal (Some \<lparr>element = Text 12 ''x'' None, timestamp = Some 1700000000002,
                       resolved = False, hasTimeElement = False\<rparr>), log)"
    using C9_extraction_never_throws [of "\<lambda>s. None" 1700000000000 "Some (Text 12 ''x'' None)" 2]
    by auto
  have c: "extractCommentData (\<lambda>s. None) 1700000000000 None 2 = (Normal None, [])"
    using C9_extraction_never_throws [of "\<lambda>s. None" 1700000000000 None 2] by auto
  show ?thesis using a b c by blast
qed

subsection \<open>Sorting the example page\<close>

lemmas query_defs = querySelector_def querySelectorAll_def matches_def getAttribute_def classList_def

lemma doc_threads: "doc threadsWorld = threadsPage [resolvedThread, unresolvedThread]"
  by (simp add: threadsWorld_def threadsPage_def)

lemma nid_threads: "nid resolvedThread = 11" "nid unresolvedThread = 21"
  "isElement resolvedThread" "isElement unresolvedThread"
  by (simp_all add: resolvedThread_def unresolvedThread_def)

lemma nids_threads: "nids resolvedThread = [11, 12, 13]" "nids unresolvedThread = [21, 22, 23]"
  by (simp_all add: resolvedThread_def unresolvedThread_def nids_def nodes_def)

lemma no_cls_threads: "\<not> matches [[Cls c]] n" if "n \<in> set (descendants resolvedThread) \<or> n \<in> set (descendants unresolvedThread)"
  using that by (auto simp: resolvedThread_def unresolvedThread_def query_defs)

lemma cls_threads: "matches [[Cls c]] resolvedThread = (c = ''js-timeline-item'')" 
  "matches [[Cls c]] unresolvedThread = (c = ''js-timeline-item'')" 
  by (auto simp: resolvedThread_def unresolvedThread_def query_defs)

lemma childOrder_threads: "childOrder threadsWorld = Some [11, 21]"
  unfolding childOrder_def doc_threads threadsPage_def
  by (simp add: query_defs children_def nid_threads cls_threads)

lemma resolved_threads: "isCommentResolved resolvedThread" "\<not> isCommentResolved unresolvedThread"
  by (simp_all add: isCommentResolved_def resolvedThread_def unresolvedThread_def query_defs selUnresolved_def)

lemma date_threads: "dateOf exampleParse resolvedThread = Some 1704067200000"
  "dateOf exampleParse unresolvedThread = Some 1704153600000"
  by (simp_all add: dateOf_def resolvedThread_def unresolvedThread_def query_defs selTime_def exampleParse_def)

lemma sort_threads:
  "arraySort (compareChildren exampleParse ''unresolved-last'') [resolvedThread, unresolvedThread]
     = [unresolvedThread, resolvedThread]"
  by (simp add: arraySort_def sortCompare_def compareChildren_def resolved_threads date_threads Let_def)


lemmas dom_defs = lookup_def nodes_def nids_def contains_def parentNode_def nextSibling_def
  insertBefore_def insertNode_def appendChild_def placeBefore_def

lemma reorder_threads:
  "appendAll 4 [unresolvedThread, resolvedThread] (threadsPage [resolvedThread, unresolvedThread])
     = (None, threadsPage [unresolvedThread, resolvedThread])"
  unfolding threadsPage_def resolvedThread_def unresolvedThread_def
  by (simp add: dom_defs)


lemma sort_threads_resolved_last:
  "arraySort (compareChildren exampleParse ''resolved-last'') [resolvedThread, unresolvedThread]
     = [unresolvedThread, resolvedThread]"
  by (simp add: arraySort_def sortCompare_def compareChildren_def resolved_threads date_threads Let_def)

lemma container_threads:
  "querySelector [[Cls ''js-discussion'']] (threadsPage cs)
     = Some (Element 4 ''div'' [(''class'', ''js-discussion'')] plainBox cs)"
  by (simp add: threadsPage_def query_defs)

lemma announce_threads:
  "fresh w = 100 \<Longrightarrow> doc w = threadsPage [unresolvedThread, resolvedThread] \<Longrightarrow>
   childOrder (final (announceSort m w)) = Some [21, 11]"
  unfolding announceSort_def showNotification_def updateSortIndicator_def
    threadsPage_def resolvedThread_def unresolvedThread_def childOrder_def notificationNode_def
  by (simp add: dom_defs query_defs documentBody_def children_def Let_def)

lemma sorted_threads:
  "m = ''unresolved-last'' \<or> m = ''resolved-last'' \<Longrightarrow>
   childOrder (final (applySorting exampleParse m threadsWorld)) = Some [21, 11]"
proof -
  assume m: "m = ''unresolved-last'' \<or> m = ''resolved-last''"
  have d: "doc (savePreference m (threadsWorld\<lparr>state := (state threadsWorld)\<lparr>currentSort := m\<rparr>\<rparr>))
             = threadsPage [resolvedThread, unresolvedThread]"
    by (simp add: savePreference_def doc_threads)
  have s: "arraySort (compareChildren exampleParse m) [resolvedThread, unresolvedThread]
     = [unresolvedThread, resolvedThread]"
    using m sort_threads sort_threads_resolved_last by auto
  show ?thesis
    unfolding applySorting_def Let_def d container_threads
    by (simp add: children_def nid_threads s reorderElements_def reorder_threads announce_threads
        savePreference_def threadsWorld_def del: appendAll.simps)
qed

text \<open>
  C2, evaluated on the code. On the example page a resolved thread is followed by an
  unresolved one. Sorting with \<open>unresolved-last\<close> puts the unresolved thread first, and so
  does \<open>resolved-last\<close>: the two modes give the same order, not swapped partitions.
\<close>

theorem C2_unresolved_last_puts_unresolved_first:
  "childOrder threadsWorld = Some [nid resolvedThread, nid unresolvedThread] \<and>
   isCommentResolved resolvedThread \<and> \<not> isCommentResolved unresolvedThread \<and>
   childOrder (final (applySorting exampleParse ''unresolved-last'' threadsWorld))
     = Some [nid unresolvedThread, nid resolvedThread] \<and>
   childOrder (final (applySorting exampleParse ''resolved-last'' threadsWorld))
     = Some [nid unresolvedThread, nid resolvedThread]"
  using childOrder_threads resolved_threads sorted_threads [of "''unresolved-last''"]
    sorted_threads [of "''resolved-last''"]
  by (simp add: nid_threads)

subsection \<open>The mutation observer\<close>

lemma anyOwn_iff: "anyOwn w ms = (\<exists>m \<in> set ms. ownMutation w m)"
  by (induction ms) auto

lemma schedulesPass_iff:
  "\<forall>(h, delay, t) \<in> set (timers w). h < nextTimer w \<Longrightarrow>
   schedulesPass ms w = (\<forall>m \<in> set ms. \<not> ownMutation w m)"
  by (auto simp: schedulesPass_def observerCallback_def anyOwn_iff clearTimeout_def Let_def
      split: option.splits)

lemma own_toolbar:
  "\<not> ownMutation toolbarWorld \<lparr>target = 4\<rparr>" "ownMutation toolbarWorld \<lparr>target = 31\<rparr>"
  unfolding ownMutation_def toolbarWorld_def
  by (simp_all add: lookup_def nodes_def closest_def ancestorsOrSelf_def contains_def nids_def
      querySelector_def matches_def getAttribute_def classList_def)

text \<open>
  C4, evaluated on the code. The changed node of a mutation record is its \<open>target\<close>,
  the node the callback tests. A batch of two records, the first on a node of the host
  page and the second on a button inside the injected toolbar, is not exclusively inside
  the injected subtrees; the callback returns at the second record and leaves the world
  as it was, with no timer for a reconciliation pass. The first record alone schedules one.
\<close>

theorem C4_mixed_batch_is_dropped:
  "\<not> ownMutation toolbarWorld \<lparr>target = 4\<rparr> \<and> ownMutation toolbarWorld \<lparr>target = 31\<rparr> \<and>
   observerCallback [\<lparr>target = 4\<rparr>, \<lparr>target = 31\<rparr>] toolbarWorld = toolbarWorld \<and>
   \<not> schedulesPass [\<lparr>target = 4\<rparr>, \<lparr>target = 31\<rparr>] toolbarWorld \<and>
   schedulesPass [\<lparr>target = 4\<rparr>] toolbarWorld"
proof -
  have t: "timers toolbarWorld = []" "nextTimer toolbarWorld = 1"
    "debounceTimer (state toolbarWorld) = None"
    by (simp_all add: toolbarWorld_def)
  have a: "observerCallback [\<lparr>target = 4\<rparr>, \<lparr>target = 31\<rparr>] toolbarWorld = toolbarWorld"
    by (simp add: observerCallback_def own_toolbar)
  have b: "\<not> schedulesPass [\<lparr>target = 4\<rparr>, \<lparr>target = 31\<rparr>] toolbarWorld"
    unfolding schedulesPass_def a by (simp add: t)
  have c: "schedulesPass [\<lparr>target = 4\<rparr>] toolbarWorld"
    by (simp add: schedulesPass_def observerCallback_def own_toolbar t)
  show ?thesis using own_toolbar a b c by simp
qed

subsection \<open>Trees of distinct nodes\<close>

lemma descendants_childNodes: "descendants n = concat (map nodes (childNodes n))"
  by (cases n) (simp_all add: nodes_def [abs_def])

lemma nodes_Element:
  "nodes (Element i t a b cs) = Element i t a b cs # concat (map nodes cs)"
  by (simp add: nodes_def descendants_childNodes)

lemma nodes_Text: "nodes (Text i s e) = [Text i s e]"
  by (simp add: nodes_def)

lemma nids_Element: "nids (Element i t a b cs) = i # concat (map nids cs)"
  by (simp add: nids_def [abs_def] nodes_Element map_concat comp_def)

lemma nids_Text: "nids (Text i s e) = [i]"
  by (simp add: nids_def nodes_Text)

lemma nids_childNodes: "nids n = nid n # concat (map nids (childNodes n))"
  by (cases n) (simp_all add: nids_Element nids_Text)

lemma self_in_nodes: "n \<in> set (nodes n)"
  by (simp add: nodes_def)

lemma nid_in_nids: "nid n \<in> set (nids n)"
  by (simp add: nids_def nodes_def)

lemma child_in_descendants: "c \<in> set (childNodes n) \<Longrightarrow> c \<in> set (descendants n)"
  by (auto simp: descendants_childNodes intro: self_in_nodes)

lemma nodes_trans: "m \<in> set (nodes n) \<Longrightarrow> n \<in> set (nodes d) \<Longrightarrow> m \<in> set (nodes d)"
proof (induction d rule: descendants.induct)
  case (1 i t a b cs)
  show ?case
  proof (cases "n = Element i t a b cs")
    case True
    then show ?thesis using 1 by simp
  next
    case False
    then obtain c where c: "c \<in> set cs" "n \<in> set (nodes c)"
      using 1(3) by (auto simp: nodes_Element)
    then have "m \<in> set (nodes c)" using 1 by blast
    then show ?thesis using c by (auto simp: nodes_Element)
  qed
next
  case (2 i s e)
  then show ?case by (simp add: nodes_Text)
qed

lemma nids_subtree: "n \<in> set (nodes d) \<Longrightarrow> set (nids n) \<subseteq> set (nids d)"
  using nodes_trans by (auto simp: nids_def)

lemma size_child: "c \<in> set cs \<Longrightarrow> size c < Suc (size_list size cs)"
  by (induction cs) auto

lemma distinct_concat_member: "distinct (concat xss) \<Longrightarrow> xs \<in> set xss \<Longrightarrow> distinct xs"
  by (induction xss) auto

lemma distinct_concat_unique:
  "distinct (concat (map f cs)) \<Longrightarrow> c \<in> set cs \<Longrightarrow> c' \<in> set cs \<Longrightarrow>
   k \<in> set (f c) \<Longrightarrow> k \<in> set (f c') \<Longrightarrow> c = c'"
  by (induction cs) auto

lemma size_nodes: "m \<in> set (nodes n) \<Longrightarrow> size m \<le> size n"
proof (induction n rule: descendants.induct)
  case (1 i t a b cs)
  show ?case
  proof (cases "m = Element i t a b cs")
    case True
    then show ?thesis by simp
  next
    case False
    then obtain c where c: "c \<in> set cs" "m \<in> set (nodes c)"
      using 1(2) by (auto simp: nodes_Element)
    then have "size m \<le> size c" using 1 by blast
    moreover have "size c < size (Element i t a b cs)"
      using size_child [OF c(1)] by simp
    ultimately show ?thesis by simp
  qed
next
  case (2 i s e)
  then show ?case by (simp add: nodes_Text)
qed

lemma size_descendants: "m \<in> set (descendants n) \<Longrightarrow> size m < size n"
proof -
  assume "m \<in> set (descendants n)"
  then obtain c where c: "c \<in> set (childNodes n)" "m \<in> set (nodes c)"
    by (auto simp: descendants_childNodes)
  have "size c < size n"
    using c(1) size_child [of c] by (cases n) auto
  then show ?thesis using size_nodes [OF c(2)] by simp
qed

lemma wfTree_Element:
  "wfTree (Element i t a b cs) =
     (i \<notin> set (concat (map nids cs)) \<and> distinct (concat (map nids cs)))"
  by (simp add: wfTree_def nids_Element)

lemma wfTree_child: "wfTree n \<Longrightarrow> c \<in> set (childNodes n) \<Longrightarrow> wfTree c"
proof (cases n)
  case (Element i t a b cs)
  assume "wfTree n" "c \<in> set (childNodes n)"
  then have "distinct (concat (map nids cs))" "nids c \<in> set (map nids cs)"
    using Element by (simp_all add: wfTree_Element)
  then show ?thesis unfolding wfTree_def by (rule distinct_concat_member)
qed simp

lemma wfTree_subtree: "n \<in> set (nodes d) \<Longrightarrow> wfTree d \<Longrightarrow> wfTree n"
proof (induction d rule: descendants.induct)
  case (1 i t a b cs)
  show ?case
  proof (cases "n = Element i t a b cs")
    case True
    then show ?thesis using 1 by simp
  next
    case False
    then obtain c where c: "c \<in> set cs" "n \<in> set (nodes c)"
      using 1(2) by (auto simp: nodes_Element)
    moreover have "wfTree c" using wfTree_child [OF 1(3)] c(1) by simp
    ultimately show ?thesis using 1 by blast
  qed
next
  case (2 i s e)
  then show ?case by (simp add: nodes_Text)
qed

lemma distinct_find:
  "distinct (map f xs) \<Longrightarrow> x \<in> set xs \<Longrightarrow> find (\<lambda>y. f y = f x) xs = Some x"
  by (induction xs) (auto simp: image_iff)

lemma lookup_wf: "wfTree d \<Longrightarrow> n \<in> set (nodes d) \<Longrightarrow> lookup (nid n) d = Some n"
  unfolding lookup_def wfTree_def nids_def by (rule distinct_find)

lemma find_SomeD: "find P xs = Some x \<Longrightarrow> P x \<and> x \<in> set xs"
  by (induction xs) (auto split: if_splits)

lemma lookup_SomeD: "lookup k d = Some n \<Longrightarrow> n \<in> set (nodes d) \<and> nid n = k"
  unfolding lookup_def by (auto dest: find_SomeD)

lemma lookup_None_iff: "(lookup k d = None) = (k \<notin> set (nids d))"
  unfolding lookup_def nids_def by (auto simp: find_None_conv)

lemma same_nid_same_node:
  "wfTree d \<Longrightarrow> n \<in> set (nodes d) \<Longrightarrow> m \<in> set (nodes d) \<Longrightarrow> nid n = nid m \<Longrightarrow> n = m"
proof -
  assume w: "wfTree d" and n: "n \<in> set (nodes d)" and m: "m \<in> set (nodes d)"
    and e: "nid n = nid m"
  have "lookup (nid m) d = Some n" using lookup_wf [OF w n] unfolding e .
  moreover have "lookup (nid m) d = Some m" by (rule lookup_wf [OF w m])
  ultimately show ?thesis by simp
qed

lemma children_disjoint:
  "wfTree n \<Longrightarrow> c \<in> set (childNodes n) \<Longrightarrow> c' \<in> set (childNodes n) \<Longrightarrow>
   k \<in> set (nids c) \<Longrightarrow> k \<in> set (nids c') \<Longrightarrow> c = c'"
  by (cases n) (auto simp: wfTree_Element dest: distinct_concat_unique)

lemma nid_not_below: "wfTree n \<Longrightarrow> c \<in> set (childNodes n) \<Longrightarrow> nid n \<notin> set (nids c)"
  by (cases n) (auto simp: wfTree_Element)

subsection \<open>Changes that stay in one place\<close>

lemma updNode_other: "k \<notin> set (nids n) \<Longrightarrow> updNode k f n = n"
proof (induction n rule: descendants.induct)
  case (1 i t a b cs)
  then have "\<And>c. c \<in> set cs \<Longrightarrow> updNode k f c = c"
    by (auto simp: nids_Element)
  then have "map (updNode k f) cs = cs" by (simp add: map_idI)
  then show ?case using 1(2) by (simp add: nids_Element)
next
  case (2 i s e)
  then show ?case by (simp add: nids_Text)
qed

lemma removeNode_other: "k \<notin> set (nids n) \<Longrightarrow> removeNode k n = n"
proof (induction n rule: descendants.induct)
  case (1 i t a b cs)
  then have a: "\<And>c. c \<in> set cs \<Longrightarrow> removeNode k c = c"
    by (auto simp: nids_Element)
  have "\<And>c. c \<in> set cs \<Longrightarrow> nid c \<noteq> k"
    using 1(2) nid_in_nids by (auto simp: nids_Element)
  then have "filter (\<lambda>c. nid c \<noteq> k) cs = cs" by simp
  then show ?case using a by (simp add: map_idI)
next
  case (2 i s e)
  then show ?case by simp
qed

lemma updNode_root: "nid n = k \<Longrightarrow> updNode k f n = f n"
  by (cases n) simp_all

lemma nid_updNode: "(\<And>n. nid (f n) = nid n) \<Longrightarrow> nid (updNode k f d) = nid d"
  by (cases d) simp_all

lemma nid_removeNode: "nid (removeNode k d) = nid d"
  by (cases d) simp_all

lemma nid_withChildren: "nid (withChildren g n) = nid n"
  by (cases n) simp_all

lemma childNodes_withChildren: "isElement n \<Longrightarrow> childNodes (withChildren g n) = g (childNodes n)"
  by (cases n) simp_all

lemma updNode_updNode:
  "(\<And>n. nid (g n) = nid n) \<Longrightarrow> updNode k f (updNode k g d) = updNode k (f \<circ> g) d"
proof (induction d rule: descendants.induct)
  case (1 i t a b cs)
  show ?case
  proof (cases "i = k")
    case True
    then have "nid (g (Element i t a b cs)) = k" using 1(2) by simp
    then show ?thesis using True by (simp add: updNode_root)
  next
    case False
    then show ?thesis using 1 by simp
  qed
next
  case (2 i s e)
  then show ?case by (simp add: updNode_root)
qed

lemma find_append:
  "find P (xs @ ys) = (case find P xs of None \<Rightarrow> find P ys | Some x \<Rightarrow> Some x)"
  by (induction xs) auto

lemma lookup_Element:
  "lookup p (Element i t a b cs) =
     (if i = p then Some (Element i t a b cs)
      else find (\<lambda>n. nid n = p) (concat (map nodes cs)))"
  by (simp add: lookup_def nodes_Element)

lemma find_children_map:
  "(\<And>c. c \<in> set cs \<Longrightarrow> lookup p (g c) = map_option h (lookup p c)) \<Longrightarrow>
   find (\<lambda>n. nid n = p) (concat (map nodes (map g cs)))
     = map_option h (find (\<lambda>n. nid n = p) (concat (map nodes cs)))"
proof (induction cs)
  case Nil
  then show ?case by simp
next
  case (Cons c cs)
  have "find (\<lambda>n. nid n = p) (nodes (g c)) = map_option h (find (\<lambda>n. nid n = p) (nodes c))"
    using Cons(2) [of c] by (simp add: lookup_def)
  then show ?case using Cons by (simp add: find_append split: option.split)
qed

lemma lookup_updNode_same:
  "(\<And>n. nid (f n) = nid n) \<Longrightarrow> lookup k (updNode k f d) = map_option f (lookup k d)"
proof (induction d rule: descendants.induct)
  case (1 i t a b cs)
  show ?case
  proof (cases "i = k")
    case True
    have "lookup k (f (Element i t a b cs)) = Some (f (Element i t a b cs))"
      using 1(2) [of "Element i t a b cs"] True
      by (simp add: lookup_def nodes_def)
    then show ?thesis using True by (simp add: lookup_Element)
  next
    case False
    then show ?thesis
      using find_children_map [of cs k "updNode k f" f] 1
      by (simp add: lookup_Element)
  qed
next
  case (2 i s e)
  show ?case
  proof (cases "i = k")
    case True
    then show ?thesis using 2 [of "Text i s e"] by (simp add: lookup_def nodes_def)
  next
    case False
    then show ?thesis by (simp add: lookup_def nodes_def)
  qed
qed

lemma nids_updNode:
  "(\<And>n. nid (f n) = nid n) \<Longrightarrow> (\<And>n. childNodes (f n) = childNodes n) \<Longrightarrow>
   nids (updNode k f d) = nids d"
proof (induction d rule: descendants.induct)
  case (1 i t a b cs)
  show ?case
  proof (cases "i = k")
    case True
    then show ?thesis
      using nids_childNodes [of "f (Element i t a b cs)"] 1(2,3)
      by (simp add: nids_Element)
  next
    case False
    have "\<And>c. c \<in> set cs \<Longrightarrow> nids (updNode k f c) = nids c"
      using 1 by simp
    then have m: "map (\<lambda>c. nids (updNode k f c)) cs = map nids cs"
      by (simp cong: map_cong)
    show ?thesis using False by (simp add: nids_Element comp_def m)
  qed
next
  case (2 i s e)
  have "nids (f (Text i s e)) = [i]"
    using nids_childNodes [of "f (Text i s e)"] 2 by simp
  then show ?case by (auto simp: nids_Text)
qed

lemma wfTree_updNode:
  "(\<And>n. nid (f n) = nid n) \<Longrightarrow> (\<And>n. childNodes (f n) = childNodes n) \<Longrightarrow>
   wfTree (updNode k f d) = wfTree d"
  by (simp add: wfTree_def nids_updNode)

lemma nodes_updNode:
  "(\<And>n. nid (f n) = nid n) \<Longrightarrow> (\<And>n. childNodes (f n) = childNodes n) \<Longrightarrow> wfTree d \<Longrightarrow>
   nodes (updNode k f d) = map (updNode k f) (nodes d)"
proof (induction d rule: descendants.induct)
  case (1 i t a b cs)
  show ?case
  proof (cases "i = k")
    case True
    have below: "\<And>n. n \<in> set (concat (map nodes cs)) \<Longrightarrow> updNode k f n = n"
    proof -
      fix n assume "n \<in> set (concat (map nodes cs))"
      then obtain c where c: "c \<in> set cs" "n \<in> set (nodes c)" by auto
      have "k \<notin> set (nids c)" using 1(4) c(1) True by (auto simp: wfTree_Element)
      then have "k \<notin> set (nids n)" using nids_subtree [OF c(2)] by auto
      then show "updNode k f n = n" by (rule updNode_other)
    qed
    have "nodes (f (Element i t a b cs)) = f (Element i t a b cs) # concat (map nodes cs)"
      using 1(3) [of "Element i t a b cs"]
      by (simp add: nodes_def descendants_childNodes)
    moreover have "map (updNode k f) (concat (map nodes cs)) = concat (map nodes cs)"
      using below by (intro map_idI)
    ultimately show ?thesis using True by (simp add: nodes_Element)
  next
    case False
    have "\<And>c. c \<in> set cs \<Longrightarrow> nodes (updNode k f c) = map (updNode k f) (nodes c)"
      using 1 wfTree_child [OF 1(4)] by simp
    then have m: "map (\<lambda>c. nodes (updNode k f c)) cs = map (\<lambda>c. map (updNode k f) (nodes c)) cs"
      by (simp cong: map_cong)
    show ?thesis using False by (simp add: nodes_Element map_concat comp_def m)
  qed
next
  case (2 i s e)
  have "nodes (f (Text i s e)) = [f (Text i s e)]"
    using 2(2) [of "Text i s e"] by (simp add: nodes_def descendants_childNodes)
  then show ?case by (auto simp: nodes_Text)
qed

subsection \<open>Moving a child within its parent\<close>

lemma removeNode_child:
  "wfTree d \<Longrightarrow> pn \<in> set (nodes d) \<Longrightarrow> xn \<in> set (childNodes pn) \<Longrightarrow>
   removeNode (nid xn) d
     = updNode (nid pn) (withChildren (filter (\<lambda>c. nid c \<noteq> nid xn))) d"
proof (induction d rule: descendants.induct)
  case (1 i t a b cs)
  let ?d = "Element i t a b cs"
  let ?g = "withChildren (filter (\<lambda>c. nid c \<noteq> nid xn))"
  show ?case
  proof (cases "pn = ?d")
    case True
    have xin: "xn \<in> set cs" using 1(4) True by simp
    have "\<And>c. c \<in> set (filter (\<lambda>c. nid c \<noteq> nid xn) cs) \<Longrightarrow> removeNode (nid xn) c = c"
    proof -
      fix c assume "c \<in> set (filter (\<lambda>c. nid c \<noteq> nid xn) cs)"
      then have c: "c \<in> set cs" "nid c \<noteq> nid xn" by simp_all
      have "nid xn \<notin> set (nids c)"
      proof
        assume "nid xn \<in> set (nids c)"
        then have "c = xn"
          using children_disjoint [of ?d c xn "nid xn"] 1(2) c(1) xin nid_in_nids by simp
        then show False using c(2) by simp
      qed
      then show "removeNode (nid xn) c = c" by (rule removeNode_other)
    qed
    then have "map (removeNode (nid xn)) (filter (\<lambda>c. nid c \<noteq> nid xn) cs)
                 = filter (\<lambda>c. nid c \<noteq> nid xn) cs"
      by (intro map_idI)
    then show ?thesis using True by simp
  next
    case False
    then obtain c0 where c0: "c0 \<in> set cs" "pn \<in> set (nodes c0)"
      using 1(3) by (auto simp: nodes_Element)
    have wf0: "wfTree c0" using wfTree_child [OF 1(2)] c0(1) by simp
    have p0: "nid pn \<in> set (nids c0)" using c0(2) by (auto simp: nids_def)
    have xpn: "xn \<in> set (nodes pn)"
      using child_in_descendants [OF 1(4)] by (simp add: nodes_def)
    have xn0: "xn \<in> set (nodes c0)" using nodes_trans [OF xpn c0(2)] .
    have x0: "nid xn \<in> set (nids c0)" using xn0 by (auto simp: nids_def)
    have pi: "nid pn \<noteq> i" using nid_not_below [OF 1(2), of c0] c0(1) p0 by auto
    have nochild: "\<And>c. c \<in> set cs \<Longrightarrow> nid c \<noteq> nid xn"
    proof
      fix c assume c: "c \<in> set cs" "nid c = nid xn"
      have "c = c0"
        using children_disjoint [of ?d c c0 "nid xn"] 1(2) c c0(1) x0 nid_in_nids [of c] by simp
      then have "xn = c0"
        using same_nid_same_node [OF wf0 xn0 self_in_nodes] c(2) by simp
      moreover have "size xn < size pn"
        using size_descendants [OF child_in_descendants [OF 1(4)]] .
      moreover have "size pn \<le> size c0" using size_nodes [OF c0(2)] .
      ultimately show False by simp
    qed
    have pt: "\<And>c. c \<in> set cs \<Longrightarrow> removeNode (nid xn) c = updNode (nid pn) ?g c"
    proof -
      fix c assume c: "c \<in> set cs"
      show "removeNode (nid xn) c = updNode (nid pn) ?g c"
      proof (cases "c = c0")
        case True
        then show ?thesis using 1(1) [OF c] wf0 c0(2) 1(4) by simp
      next
        case False
        have "nid pn \<notin> set (nids c)"
          using children_disjoint [of ?d c c0 "nid pn"] 1(2) c c0(1) p0 False by auto
        moreover have "nid xn \<notin> set (nids c)"
          using children_disjoint [of ?d c c0 "nid xn"] 1(2) c c0(1) x0 False by auto
        ultimately show ?thesis by (simp add: updNode_other removeNode_other)
      qed
    qed
    have f: "filter (\<lambda>c. nid c \<noteq> nid xn) cs = cs" using nochild by simp
    have m: "map (removeNode (nid xn)) cs = map (updNode (nid pn) ?g) cs"
      using pt by simp
    show ?thesis using pi by (simp add: f m)
  qed
next
  case (2 i s e)
  then show ?case by (auto simp: nodes_Text)
qed

lemma withChildren_comp: "withChildren f (withChildren g n) = withChildren (f \<circ> g) n"
  by (cases n) simp_all

lemma updNode_id: "(\<And>n. nid n = k \<Longrightarrow> f n = n) \<Longrightarrow> updNode k f d = d"
proof (induction d rule: descendants.induct)
  case (1 i t a b cs)
  show ?case
  proof (cases "i = k")
    case True
    then show ?thesis using 1(2) [of "Element i t a b cs"] by simp
  next
    case False
    have "map (updNode k f) cs = cs" using 1 False by (intro map_idI) simp
    then show ?thesis using False by simp
  qed
next
  case (2 i s e)
  then show ?case using 2 [of "Text i s e"] by auto
qed

lemma distinct_child_nids_aux:
  "distinct (concat (map nids cs)) \<Longrightarrow> distinct (map nid cs)"
proof (induction cs)
  case Nil
  then show ?case by simp
next
  case (Cons c cs)
  have "nid c \<notin> nid ` set cs"
  proof
    assume "nid c \<in> nid ` set cs"
    then obtain c' where c': "c' \<in> set cs" "nid c' = nid c" by auto
    then have "nid c \<in> set (nids c')" using nid_in_nids [of c'] by simp
    then show False using Cons(2) c'(1) nid_in_nids [of c] by auto
  qed
  then show ?case using Cons by simp
qed

lemma distinct_child_nids: "wfTree n \<Longrightarrow> distinct (map nid (childNodes n))"
  by (cases n) (simp_all add: wfTree_Element distinct_child_nids_aux)

lemma mset_move_to_end:
  "distinct (map nid cs) \<Longrightarrow> el \<in> set cs \<Longrightarrow>
   mset (filter (\<lambda>n. nid n \<noteq> nid el) cs @ [el]) = mset cs"
proof (induction cs)
  case Nil
  then show ?case by simp
next
  case (Cons c cs)
  show ?case
  proof (cases "c = el")
    case True
    have "nid el \<notin> set (map nid cs)" using Cons(2) True by simp
    then have "\<And>n. n \<in> set cs \<Longrightarrow> nid n \<noteq> nid el" by (metis image_eqI set_map)
    then have "filter (\<lambda>n. nid n \<noteq> nid el) cs = cs" by simp
    then show ?thesis using True by simp
  next
    case False
    then have "el \<in> set cs" using Cons(3) by simp
    moreover have "nid c \<noteq> nid el" using Cons(2) calculation by auto
    ultimately show ?thesis using Cons by simp
  qed
qed

lemma mset_concat_map: "mset (concat (map f xs)) = (\<Sum>x\<in>#mset xs. mset (f x))"
  by (induction xs) simp_all

lemma mset_concat_map_cong:
  "mset xs = mset ys \<Longrightarrow> mset (concat (map f xs)) = mset (concat (map f ys))"
  by (simp add: mset_concat_map)

lemma mset_concat_pointwise:
  "(\<And>c. c \<in> set cs \<Longrightarrow> mset (f (h c)) = mset (f c)) \<Longrightarrow>
   mset (concat (map f (map h cs))) = mset (concat (map f cs))"
  by (induction cs) simp_all

lemma nids_permute_children:
  "(\<And>n. n \<in> set (nodes d) \<Longrightarrow> nid n = c \<Longrightarrow> mset (g (childNodes n)) = mset (childNodes n)) \<Longrightarrow>
   mset (nids (updNode c (withChildren g) d)) = mset (nids d)"
proof (induction d rule: descendants.induct)
  case (1 i t a b cs)
  show ?case
  proof (cases "i = c")
    case True
    have "mset (g cs) = mset cs"
      using 1(2) [of "Element i t a b cs"] True by (simp add: self_in_nodes)
    then have "mset (concat (map nids (g cs))) = mset (concat (map nids cs))"
      by (rule mset_concat_map_cong)
    then show ?thesis using True by (simp add: nids_Element)
  next
    case False
    have "\<And>c'. c' \<in> set cs \<Longrightarrow>
            mset (nids (updNode c (withChildren g) c')) = mset (nids c')"
    proof -
      fix c' assume c': "c' \<in> set cs"
      show "mset (nids (updNode c (withChildren g) c')) = mset (nids c')"
      proof (rule 1(1) [OF c'])
        fix n assume n: "n \<in> set (nodes c')" "nid n = c"
        have "n \<in> set (nodes (Element i t a b cs))"
          using n(1) c' by (auto simp: nodes_Element)
        then show "mset (g (childNodes n)) = mset (childNodes n)" using 1(2) n(2) by blast
      qed
    qed
    then have "mset (concat (map nids (map (updNode c (withChildren g)) cs)))
                 = mset (concat (map nids cs))"
      by (rule mset_concat_pointwise)
    then show ?thesis using False by (simp add: nids_Element)
  qed
next
  case (2 i s e)
  then show ?case by (simp add: nids_Text)
qed

subsection \<open>The reorder loop\<close>

lemma descendant_not_root: "wfTree d \<Longrightarrow> n \<in> set (descendants d) \<Longrightarrow> nid n \<noteq> nid d"
proof
  assume wf: "wfTree d" and n: "n \<in> set (descendants d)" and e: "nid n = nid d"
  have "n \<in> set (nodes d)" using n by (simp add: nodes_def)
  then have "n = d" using same_nid_same_node [OF wf _ self_in_nodes] e by simp
  then show False using size_descendants [OF n] by simp
qed

lemma child_not_contains_parent:
  "wfTree d \<Longrightarrow> cn \<in> set (nodes d) \<Longrightarrow> el \<in> set (descendants cn) \<Longrightarrow> \<not> contains el (nid cn)"
proof
  assume wf: "wfTree d" and cnd: "cn \<in> set (nodes d)" and x: "el \<in> set (descendants cn)"
    and "contains el (nid cn)"
  then obtain y where y: "y \<in> set (nodes el)" "nid y = nid cn"
    by (auto simp: contains_def nids_def)
  have "el \<in> set (nodes cn)" using x by (simp add: nodes_def)
  then have "el \<in> set (nodes d)" using nodes_trans cnd by blast
  then have "y \<in> set (nodes d)" using nodes_trans y(1) by blast
  then have "y = cn" using same_nid_same_node [OF wf _ cnd] y(2) by simp
  then have "size cn \<le> size el" using size_nodes [OF y(1)] by simp
  moreover have "size el < size cn" using size_descendants [OF x] .
  ultimately show False by simp
qed

lemma appendChild_child:
  assumes wf: "wfTree d" and cn: "cn \<in> set (descendants d)" and el: "isElement cn"
    and x: "el \<in> set (childNodes cn)"
  shows "appendChild (nid cn) (nid el) d
           = Normal (updNode (nid cn)
               (withChildren (\<lambda>cs. filter (\<lambda>n. nid n \<noteq> nid el) cs @ [el])) d)"
proof -
  have cnd: "cn \<in> set (nodes d)" using cn by (simp add: nodes_def)
  have "el \<in> set (nodes cn)" using child_in_descendants [OF x] by (simp add: nodes_def)
  then have eld: "el \<in> set (nodes d)" using nodes_trans cnd by blast
  have l1: "lookup (nid el) d = Some el" by (rule lookup_wf [OF wf eld])
  have l2: "lookup (nid cn) d = Some cn" by (rule lookup_wf [OF wf cnd])
  have nc: "\<not> contains el (nid cn)"
    by (rule child_not_contains_parent [OF wf cnd child_in_descendants [OF x]])
  have nr: "nid cn \<noteq> nid d" by (rule descendant_not_root [OF wf cn])
  have rm: "removeNode (nid el) d
              = updNode (nid cn) (withChildren (filter (\<lambda>c. nid c \<noteq> nid el))) d"
    by (rule removeNode_child [OF wf cnd x])
  have comp: "withChildren (placeBefore el None) \<circ> withChildren (filter (\<lambda>c. nid c \<noteq> nid el))
                = withChildren (\<lambda>cs. filter (\<lambda>n. nid n \<noteq> nid el) cs @ [el])"
    by (rule ext) (simp add: withChildren_comp placeBefore_def comp_def)
  show ?thesis
    unfolding appendChild_def insertBefore_def insertNode_def
    using l1 l2 el nc nr by (simp add: rm updNode_updNode nid_withChildren comp)
qed

lemma wfTree_move_to_end:
  assumes wf: "wfTree d" and cnd: "cn \<in> set (nodes d)" and x: "el \<in> set (childNodes cn)"
  shows "wfTree (updNode (nid cn)
           (withChildren (\<lambda>cs. filter (\<lambda>n. nid n \<noteq> nid el) cs @ [el])) d)"
proof -
  have "mset (nids (updNode (nid cn)
           (withChildren (\<lambda>cs. filter (\<lambda>n. nid n \<noteq> nid el) cs @ [el])) d)) = mset (nids d)"
  proof (rule nids_permute_children)
    fix n assume n: "n \<in> set (nodes d)" "nid n = nid cn"
    have "n = cn" using same_nid_same_node [OF wf n(1) cnd] n(2) by simp
    moreover have "distinct (map nid (childNodes cn))"
      using distinct_child_nids wfTree_subtree [OF cnd wf] by blast
    ultimately show "mset (filter (\<lambda>n. nid n \<noteq> nid el) (childNodes n) @ [el])
                       = mset (childNodes n)"
      using mset_move_to_end x by blast
  qed
  then show ?thesis using wf unfolding wfTree_def by (metis mset_eq_imp_distinct_iff)
qed

lemma appendAll_children:
  "wfTree d \<Longrightarrow> cn \<in> set (descendants d) \<Longrightarrow> isElement cn \<Longrightarrow>
   set els \<subseteq> set (childNodes cn) \<Longrightarrow> distinct (map nid els) \<Longrightarrow>
   appendAll (nid cn) els d =
     (None, updNode (nid cn)
        (withChildren (\<lambda>cs. filter (\<lambda>n. nid n \<notin> nid ` set els) cs @ els)) d)"
proof (induction els arbitrary: d cn)
  case Nil
  have "updNode (nid cn) (withChildren (\<lambda>cs. cs)) d = d"
    by (rule updNode_id) (case_tac n, simp_all)
  then show ?case by simp
next
  case (Cons el els)
  let ?G1 = "\<lambda>cs. filter (\<lambda>n. nid n \<noteq> nid el) cs @ [el]"
  let ?G' = "\<lambda>cs. filter (\<lambda>n. nid n \<notin> nid ` set els) cs @ els"
  let ?d1 = "updNode (nid cn) (withChildren ?G1) d"
  let ?cn1 = "withChildren ?G1 cn"
  have x: "el \<in> set (childNodes cn)" using Cons(5) by simp
  have cnd: "cn \<in> set (nodes d)" using Cons(3) by (simp add: nodes_def)
  have step: "appendChild (nid cn) (nid el) d = Normal ?d1"
    by (rule appendChild_child [OF Cons(2) Cons(3) Cons(4) x])
  have wf1: "wfTree ?d1" by (rule wfTree_move_to_end [OF Cons(2) cnd x])
  have l: "lookup (nid cn) ?d1 = Some ?cn1"
    by (simp add: lookup_updNode_same nid_withChildren lookup_wf [OF Cons(2) cnd])
  have n1: "nid ?cn1 = nid cn" by (rule nid_withChildren)
  have "nid ?d1 = nid d" by (simp add: nid_updNode nid_withChildren)
  then have "?cn1 \<noteq> ?d1" using descendant_not_root [OF Cons(2) Cons(3)] n1 by metis
  then have cn1: "?cn1 \<in> set (descendants ?d1)"
    using lookup_SomeD [OF l] by (simp add: nodes_def)
  have e1: "isElement ?cn1" using Cons(4) by (cases cn) simp_all
  have ch1: "childNodes ?cn1 = ?G1 (childNodes cn)"
    by (rule childNodes_withChildren [OF Cons(4)])
  have nel: "nid el \<notin> nid ` set els" using Cons(6) by simp
  have sub: "set els \<subseteq> set (childNodes ?cn1)"
  proof
    fix e assume e: "e \<in> set els"
    then have "nid e \<noteq> nid el" using nel by (metis image_eqI)
    moreover have "e \<in> set (childNodes cn)" using e Cons(5) by auto
    ultimately show "e \<in> set (childNodes ?cn1)" unfolding ch1 by simp
  qed
  have d1: "distinct (map nid els)" using Cons(6) by simp
  have ih: "appendAll (nid ?cn1) els ?d1 = (None, updNode (nid ?cn1) (withChildren ?G') ?d1)"
    by (rule Cons(1) [OF wf1 cn1 e1 sub d1])
  have comp: "withChildren ?G' \<circ> withChildren ?G1
                = withChildren (\<lambda>cs. filter (\<lambda>n. nid n \<notin> nid ` set (el # els)) cs @ el # els)"
    using nel by (intro ext) (simp add: withChildren_comp comp_def conj_commute)
  show ?case
    using step ih unfolding n1
    by (simp add: updNode_updNode nid_withChildren comp)
qed

subsection \<open>Identities after a change of one child list\<close>

lemma nids_change_children:
  "wfTree d \<Longrightarrow> pn \<in> set (nodes d) \<Longrightarrow> isElement pn \<Longrightarrow>
   mset (concat (map nids (g (childNodes pn)))) + A
     = mset (concat (map nids (childNodes pn))) + B \<Longrightarrow>
   mset (nids (updNode (nid pn) (withChildren g) d)) + A = mset (nids d) + B"
proof (induction d rule: descendants.induct)
  case (1 i t a b cs)
  let ?d = "Element i t a b cs"
  let ?u = "updNode (nid pn) (withChildren g)"
  show ?case
  proof (cases "pn = ?d")
    case True
    then show ?thesis using 1(5) by (simp add: nids_Element)
  next
    case False
    then obtain c0 where c0: "c0 \<in> set cs" "pn \<in> set (nodes c0)"
      using 1(3) by (auto simp: nodes_Element)
    have wf0: "wfTree c0" using wfTree_child [OF 1(2)] c0(1) by simp
    have p0: "nid pn \<in> set (nids c0)" using c0(2) by (auto simp: nids_def)
    have pi: "nid pn \<noteq> i" using nid_not_below [OF 1(2), of c0] c0(1) p0 by auto
    obtain as bs where sp: "cs = as @ c0 # bs" using split_list [OF c0(1)] by blast
    have "distinct (map nid cs)" using distinct_child_nids [OF 1(2)] by simp
    then have dc: "distinct cs" by (simp add: distinct_map)
    have other: "\<And>c. c \<in> set as \<union> set bs \<Longrightarrow> ?u c = c"
    proof -
      fix c assume c: "c \<in> set as \<union> set bs"
      then have "c \<noteq> c0" using dc sp by auto
      moreover have "c \<in> set cs" using c sp by auto
      ultimately have "nid pn \<notin> set (nids c)"
        using children_disjoint [of ?d c c0 "nid pn"] 1(2) c0(1) p0 by auto
      then show "?u c = c" by (rule updNode_other)
    qed
    have "map ?u as = as" "map ?u bs = bs" using other by (simp_all add: map_idI)
    then have m: "map ?u cs = as @ ?u c0 # bs" using sp by simp
    have ih: "mset (nids (?u c0)) + A = mset (nids c0) + B"
      by (rule 1(1) [OF c0(1) wf0 c0(2) 1(4) 1(5)])
    have "mset (nids (?u ?d)) + A
            = add_mset i (mset (concat (map nids as)) + (mset (nids (?u c0)) + A)
                + mset (concat (map nids bs)))"
      using pi by (simp add: nids_Element m)
    also have "\<dots> = mset (nids ?d) + B"
      unfolding ih by (simp add: nids_Element sp)
    finally show ?thesis .
  qed
next
  case (2 i s e)
  then show ?case by (simp add: nodes_Text)
qed

lemma has_parent:
  "n \<in> set (descendants d) \<Longrightarrow> \<exists>pn \<in> set (nodes d). n \<in> set (childNodes pn)"
proof (induction d rule: descendants.induct)
  case (1 i t a b cs)
  then obtain c where c: "c \<in> set cs" "n \<in> set (nodes c)"
    by (auto simp: descendants_childNodes)
  show ?case
  proof (cases "n = c")
    case True
    then show ?thesis
      using c(1) by (intro bexI [of _ "Element i t a b cs"]) (simp_all add: self_in_nodes)
  next
    case False
    then have "n \<in> set (descendants c)" using c(2) by (simp add: nodes_def)
    then obtain pn where "pn \<in> set (nodes c)" "n \<in> set (childNodes pn)"
      using 1(1) [OF c(1)] by blast
    then show ?thesis using c(1) by (auto simp: nodes_Element)
  qed
next
  case (2 i s e)
  then show ?case by simp
qed

lemma removeNode_absent: "k \<notin> nid ` set (descendants n) \<Longrightarrow> removeNode k n = n"
proof (induction n rule: descendants.induct)
  case (1 i t a b cs)
  have sub: "\<And>c. c \<in> set cs \<Longrightarrow> set (nodes c) \<subseteq> set (descendants (Element i t a b cs))"
    by (auto simp: descendants_childNodes)
  have a: "\<And>c. c \<in> set cs \<Longrightarrow> removeNode k c = c"
  proof -
    fix c assume c: "c \<in> set cs"
    have "set (descendants c) \<subseteq> set (nodes c)" by (auto simp: nodes_def)
    then have "k \<notin> nid ` set (descendants c)" using 1(2) sub [OF c] by blast
    then show "removeNode k c = c" by (rule 1(1) [OF c])
  qed
  have "\<And>c. c \<in> set cs \<Longrightarrow> nid c \<noteq> k"
    using 1(2) sub self_in_nodes by (metis image_eqI subsetD)
  then have "filter (\<lambda>c. nid c \<noteq> k) cs = cs" by simp
  then show ?case using a by (simp add: map_idI)
next
  case (2 i s e)
  then show ?case by simp
qed

lemma mset_nids_without_child:
  "distinct (map nid cs) \<Longrightarrow> xn \<in> set cs \<Longrightarrow>
   mset (concat (map nids (filter (\<lambda>c. nid c \<noteq> nid xn) cs))) + mset (nids xn)
     = mset (concat (map nids cs))"
proof (induction cs)
  case Nil
  then show ?case by simp
next
  case (Cons c cs)
  show ?case
  proof (cases "c = xn")
    case True
    have "nid xn \<notin> set (map nid cs)" using Cons(2) True by simp
    then have "\<And>n. n \<in> set cs \<Longrightarrow> nid n \<noteq> nid xn" by (metis image_eqI set_map)
    then have "filter (\<lambda>n. nid n \<noteq> nid xn) cs = cs" by simp
    then show ?thesis using True by simp
  next
    case False
    then have x: "xn \<in> set cs" using Cons(3) by simp
    have "nid c \<notin> set (map nid cs)" using Cons(2) by simp
    then have "nid c \<noteq> nid xn" using x by (metis image_eqI set_map)
    then show ?thesis using Cons x by simp
  qed
qed

lemma nids_removeNode:
  assumes wf: "wfTree d" and x: "xn \<in> set (descendants d)"
  shows "mset (nids (removeNode (nid xn) d)) + mset (nids xn) = mset (nids d)"
proof -
  obtain pn where pn: "pn \<in> set (nodes d)" "xn \<in> set (childNodes pn)"
    using has_parent [OF x] by blast
  have el: "isElement pn" using pn(2) by (cases pn) simp_all
  have dc: "distinct (map nid (childNodes pn))"
    using distinct_child_nids wfTree_subtree [OF pn(1) wf] by blast
  have "mset (nids (updNode (nid pn) (withChildren (filter (\<lambda>c. nid c \<noteq> nid xn))) d))
          + mset (nids xn) = mset (nids d) + {#}"
    by (rule nids_change_children [OF wf pn(1) el])
      (simp add: mset_nids_without_child [OF dc pn(2)])
  then show ?thesis by (simp add: removeNode_child [OF wf pn])
qed

lemma wfTree_removeNode: "wfTree d \<Longrightarrow> wfTree (removeNode x d)"
proof (cases "x \<in> nid ` set (descendants d)")
  case True
  assume wf: "wfTree d"
  obtain xn where xn: "xn \<in> set (descendants d)" "nid xn = x" using True by auto
  have "mset (nids (removeNode x d) @ nids xn) = mset (nids d)"
    using nids_removeNode [OF wf xn(1)] xn(2) by simp
  then have "distinct (nids (removeNode x d) @ nids xn)"
    using wf unfolding wfTree_def by (metis mset_eq_imp_distinct_iff)
  then show ?thesis by (simp add: wfTree_def)
next
  case False
  then show "wfTree d \<Longrightarrow> wfTree (removeNode x d)" by (simp add: removeNode_absent)
qed

lemma nids_removeNode_subset: "wfTree d \<Longrightarrow> set (nids (removeNode x d)) \<subseteq> set (nids d)"
proof (cases "x \<in> nid ` set (descendants d)")
  case True
  assume wf: "wfTree d"
  obtain xn where xn: "xn \<in> set (descendants d)" "nid xn = x" using True by auto
  have "mset (nids (removeNode x d)) \<subseteq># mset (nids d)"
    using nids_removeNode [OF wf xn(1)] xn(2) by (metis mset_subset_eq_add_left)
  then have "set_mset (mset (nids (removeNode x d))) \<subseteq> set_mset (mset (nids d))"
    by (rule set_mset_mono)
  then show ?thesis by simp
next
  case False
  then show "wfTree d \<Longrightarrow> set (nids (removeNode x d)) \<subseteq> set (nids d)"
    by (simp add: removeNode_absent)
qed

subsection \<open>Nodes a change does not touch\<close>

lemma updNode_keeps_node:
  "(\<And>n. set (childNodes n) \<subseteq> set (childNodes (f n))) \<Longrightarrow>
   cn \<in> set (nodes d) \<Longrightarrow> k \<notin> set (nids cn) \<Longrightarrow> cn \<in> set (nodes (updNode k f d))"
proof (induction d rule: descendants.induct)
  case (1 i t a b cs)
  let ?d = "Element i t a b cs"
  show ?case
  proof (cases "cn = ?d")
    case True
    have "updNode k f cn = cn" using 1(4) by (rule updNode_other)
    then show ?thesis unfolding True [symmetric] by (metis self_in_nodes)
  next
    case False
    then obtain c where c: "c \<in> set cs" "cn \<in> set (nodes c)"
      using 1(3) by (auto simp: nodes_Element)
    show ?thesis
    proof (cases "i = k")
      case True
      have "c \<in> set (childNodes (f ?d))" using 1(2) [of ?d] c(1) by auto
      then have "cn \<in> set (descendants (f ?d))"
        using c(2) by (auto simp: descendants_childNodes)
      then show ?thesis using True by (simp add: nodes_def)
    next
      case False
      have "cn \<in> set (nodes (updNode k f c))" by (rule 1(1) [OF c(1) 1(2) c(2) 1(4)])
      then show ?thesis using False c(1) by (auto simp: nodes_Element)
    qed
  qed
next
  case (2 i s e)
  then have "cn = Text i s e" by (simp add: nodes_Text)
  moreover have "updNode k f cn = cn" using 2(3) by (rule updNode_other)
  ultimately show ?case by (metis self_in_nodes)
qed

lemma removeNode_keeps_node:
  "cn \<in> set (nodes d) \<Longrightarrow> x \<notin> set (nids cn) \<Longrightarrow>
   (\<And>xn. xn \<in> set (nodes d) \<Longrightarrow> nid xn = x \<Longrightarrow> cn \<notin> set (nodes xn)) \<Longrightarrow>
   cn \<in> set (nodes (removeNode x d))"
proof (induction d rule: descendants.induct)
  case (1 i t a b cs)
  let ?d = "Element i t a b cs"
  show ?case
  proof (cases "cn = ?d")
    case True
    have "removeNode x cn = cn" using 1(3) by (rule removeNode_other)
    then show ?thesis unfolding True [symmetric] by (metis self_in_nodes)
  next
    case False
    then obtain c where c: "c \<in> set cs" "cn \<in> set (nodes c)"
      using 1(2) by (auto simp: nodes_Element)
    have cd: "c \<in> set (nodes ?d)" using c(1) self_in_nodes by (auto simp: nodes_Element)
    have keep: "nid c \<noteq> x" using 1(4) [OF cd] c(2) by auto
    have "cn \<in> set (nodes (removeNode x c))"
    proof (rule 1(1) [OF c(1) c(2) 1(3)])
      fix xn assume xn: "xn \<in> set (nodes c)" "nid xn = x"
      have "xn \<in> set (nodes ?d)" using xn(1) c(1) by (auto simp: nodes_Element)
      then show "cn \<notin> set (nodes xn)" using 1(4) xn(2) by blast
    qed
    then show ?thesis using keep c(1) by (auto simp: nodes_Element)
  qed
next
  case (2 i s e)
  then show ?case by (simp add: nodes_Text)
qed

subsection \<open>Following nodes through attribute changes and reorderings\<close>

lemma matchesSimple_shallow: "matchesSimple (shallow n) s = matchesSimple n s"
  by (cases n; cases s) (simp_all add: getAttribute_def classList_def)

lemma matches_shallow_self: "matches sel (shallow n) = matches sel n"
proof -
  have "isElement (shallow n) = isElement n" by (cases n) simp_all
  then show ?thesis by (simp add: matches_def matchesSimple_shallow)
qed

lemma matches_shallow: "shallow n = shallow n' \<Longrightarrow> matches sel n = matches sel n'"
  by (metis matches_shallow_self)

lemma tagName_shallow: "shallow n = shallow n' \<Longrightarrow> tagName n = tagName n'"
  by (cases n; cases n') simp_all

lemma shallow_withChildren: "shallow (withChildren g n) = shallow n"
  by (cases n) simp_all

lemma set_nids_childNodes:
  "nid n' = nid n \<Longrightarrow> set (childNodes n') = set (childNodes n) \<Longrightarrow> set (nids n') = set (nids n)"
  by (simp add: nids_childNodes [of n] nids_childNodes [of n'])

lemma set_nids_updNode:
  "(\<And>n. n \<in> set (nodes d) \<Longrightarrow> nid n = k \<Longrightarrow>
       nid (f n) = k \<and> set (childNodes (f n)) = set (childNodes n)) \<Longrightarrow>
   set (nids (updNode k f d)) = set (nids d)"
proof (induction d rule: descendants.induct)
  case (1 i t a b cs)
  let ?d = "Element i t a b cs"
  show ?case
  proof (cases "i = k")
    case True
    have "nid (f ?d) = nid ?d \<and> set (childNodes (f ?d)) = set (childNodes ?d)"
      using 1(2) [of ?d] True by (simp add: self_in_nodes)
    then have "set (nids (f ?d)) = set (nids ?d)" using set_nids_childNodes by blast
    then show ?thesis using True by simp
  next
    case False
    have "\<And>c. c \<in> set cs \<Longrightarrow> set (nids (updNode k f c)) = set (nids c)"
    proof -
      fix c assume c: "c \<in> set cs"
      show "set (nids (updNode k f c)) = set (nids c)"
      proof (rule 1(1) [OF c])
        fix n assume n: "n \<in> set (nodes c)" "nid n = k"
        have "n \<in> set (nodes ?d)" using n(1) c by (auto simp: nodes_Element)
        then show "nid (f n) = k \<and> set (childNodes (f n)) = set (childNodes n)"
          using 1(2) n(2) by blast
      qed
    qed
    then show ?thesis using False by (simp add: nids_Element)
  qed
next
  case (2 i s e)
  show ?case
  proof (cases "i = k")
    case True
    have "nid (f (Text i s e)) = nid (Text i s e) \<and>
          set (childNodes (f (Text i s e))) = set (childNodes (Text i s e))"
      using 2 [of "Text i s e"] True by (simp add: self_in_nodes)
    then have "set (nids (f (Text i s e))) = set (nids (Text i s e))"
      using set_nids_childNodes by blast
    then show ?thesis using True by simp
  next
    case False
    then show ?thesis by simp
  qed
qed

lemma tracks_refl: "tracks S d d"
  by (auto simp: tracks_def)

lemma tracks_trans: "tracks S d1 d2 \<Longrightarrow> tracks T d2 d3 \<Longrightarrow> tracks (S \<union> T) d1 d3"
proof -
  assume a: "tracks S d1 d2" and b: "tracks T d2 d3"
  show ?thesis
    unfolding tracks_def
  proof
    fix n3 assume "n3 \<in> set (nodes d3)"
    then obtain n2 where n2: "n2 \<in> set (nodes d2)" "nid n2 = nid n3"
      "set (nids n2) = set (nids n3)" "nid n3 \<notin> T \<longrightarrow> shallow n2 = shallow n3"
      using b unfolding tracks_def by blast
    obtain n1 where n1: "n1 \<in> set (nodes d1)" "nid n1 = nid n2"
      "set (nids n1) = set (nids n2)" "nid n2 \<notin> S \<longrightarrow> shallow n1 = shallow n2"
      using a n2(1) unfolding tracks_def by blast
    show "\<exists>n \<in> set (nodes d1). nid n = nid n3 \<and> set (nids n) = set (nids n3) \<and>
            (nid n3 \<notin> S \<union> T \<longrightarrow> shallow n = shallow n3)"
      using n1 n2 by (intro bexI [of _ n1]) auto
  qed
qed

lemma tracks_updNode:
  "(\<And>n. n \<in> set (nodes d) \<Longrightarrow> nid n = k \<Longrightarrow>
       nid (f n) = k \<and> set (childNodes (f n)) = set (childNodes n) \<and>
       (k \<notin> S \<longrightarrow> shallow (f n) = shallow n)) \<Longrightarrow>
   tracks S d (updNode k f d)"
proof (induction d rule: descendants.induct)
  case (1 i t a b cs)
  let ?d = "Element i t a b cs"
  show ?case
  proof (cases "i = k")
    case True
    have f: "nid (f ?d) = nid ?d" "set (childNodes (f ?d)) = set cs"
      "k \<notin> S \<longrightarrow> shallow (f ?d) = shallow ?d"
      using 1(2) [of ?d] True by (simp_all add: self_in_nodes)
    have top: "set (nids ?d) = set (nids (f ?d))"
      using set_nids_childNodes [of "f ?d" ?d] f by simp
    show ?thesis
      unfolding tracks_def
    proof
      fix n' assume n': "n' \<in> set (nodes (updNode k f ?d))"
      then have "n' = f ?d \<or> n' \<in> set (descendants (f ?d))"
        using True by (simp add: nodes_def)
      then show "\<exists>n \<in> set (nodes ?d). nid n = nid n' \<and> set (nids n) = set (nids n') \<and>
                   (nid n' \<notin> S \<longrightarrow> shallow n = shallow n')"
      proof
        assume "n' = f ?d"
        then show ?thesis
          using f top True by (intro bexI [of _ ?d]) (auto simp: self_in_nodes)
      next
        assume "n' \<in> set (descendants (f ?d))"
        then have "n' \<in> set (descendants ?d)"
          using f(2) by (auto simp: descendants_childNodes)
        then show ?thesis by (intro bexI [of _ n']) (simp_all add: nodes_def)
      qed
    qed
  next
    case False
    have hyp: "\<And>c n. c \<in> set cs \<Longrightarrow> n \<in> set (nodes c) \<Longrightarrow> nid n = k \<Longrightarrow>
       nid (f n) = k \<and> set (childNodes (f n)) = set (childNodes n) \<and>
       (k \<notin> S \<longrightarrow> shallow (f n) = shallow n)"
    proof -
      fix c n assume "c \<in> set cs" "n \<in> set (nodes c)" "nid n = k"
      moreover from this have "n \<in> set (nodes ?d)" by (auto simp: nodes_Element)
      ultimately show "nid (f n) = k \<and> set (childNodes (f n)) = set (childNodes n) \<and>
         (k \<notin> S \<longrightarrow> shallow (f n) = shallow n)" using 1(2) by blast
    qed
    have ih: "\<And>c. c \<in> set cs \<Longrightarrow> tracks S c (updNode k f c)"
      using 1(1) hyp by blast
    have top: "set (nids (updNode k f ?d)) = set (nids ?d)"
      by (rule set_nids_updNode) (use 1(2) in blast)
    show ?thesis
      unfolding tracks_def
    proof
      fix n' assume n': "n' \<in> set (nodes (updNode k f ?d))"
      then have "n' = updNode k f ?d \<or> (\<exists>c \<in> set cs. n' \<in> set (nodes (updNode k f c)))"
        using False by (auto simp: nodes_Element)
      then show "\<exists>n \<in> set (nodes ?d). nid n = nid n' \<and> set (nids n) = set (nids n') \<and>
                   (nid n' \<notin> S \<longrightarrow> shallow n = shallow n')"
      proof
        assume e: "n' = updNode k f ?d"
        have "shallow ?d = shallow n'" using e False by simp
        moreover have "nid ?d = nid n'" using e False by simp
        ultimately show ?thesis
          using top e by (intro bexI [of _ ?d]) (simp_all add: self_in_nodes)
      next
        assume "\<exists>c \<in> set cs. n' \<in> set (nodes (updNode k f c))"
        then obtain c where c: "c \<in> set cs" "n' \<in> set (nodes (updNode k f c))" by blast
        then obtain n where n: "n \<in> set (nodes c)" "nid n = nid n'"
          "set (nids n) = set (nids n')" "nid n' \<notin> S \<longrightarrow> shallow n = shallow n'"
          using ih [OF c(1)] unfolding tracks_def by blast
        have "n \<in> set (nodes ?d)" using n(1) c(1) by (auto simp: nodes_Element)
        then show ?thesis using n by blast
      qed
    qed
  qed
next
  case (2 i s e)
  show ?case
  proof (cases "i = k")
    case True
    have f: "nid (f (Text i s e)) = i" "set (childNodes (f (Text i s e))) = {}"
      "k \<notin> S \<longrightarrow> shallow (f (Text i s e)) = shallow (Text i s e)"
      using 2 [of "Text i s e"] True by (simp_all add: self_in_nodes)
    have "nodes (f (Text i s e)) = [f (Text i s e)]"
      using f(2) by (simp add: nodes_def descendants_childNodes)
    moreover have "set (nids (f (Text i s e))) = set (nids (Text i s e))"
      using set_nids_childNodes [of "f (Text i s e)" "Text i s e"] f by simp
    ultimately show ?thesis
      using True f by (simp add: tracks_def nodes_Text)
  next
    case False
    then show ?thesis by (simp add: tracks_refl)
  qed
qed

subsection \<open>The indicator and the notification leave other nodes alone\<close>

lemma nid_setAttr: "nid (setAttr a v n) = nid n"
  by (cases n) simp_all

lemma childNodes_setAttr: "childNodes (setAttr a v n) = childNodes n"
  by (cases n) simp_all

lemma nid_classToggle: "nid (classToggle c force n) = nid n"
  by (simp add: classToggle_def Let_def nid_setAttr)

lemma childNodes_classToggle: "childNodes (classToggle c force n) = childNodes n"
  by (simp add: classToggle_def Let_def childNodes_setAttr)

lemma foldl_updNode_attrs:
  assumes a: "\<And>b n. nid (F b n) = nid n" and c: "\<And>b n. childNodes (F b n) = childNodes n"
  shows "wfTree d \<Longrightarrow>
     wfTree (foldl (\<lambda>d' b. updNode (nid b) (F b) d') d bs) \<and>
     nids (foldl (\<lambda>d' b. updNode (nid b) (F b) d') d bs) = nids d \<and>
     tracks (nid ` set bs) d (foldl (\<lambda>d' b. updNode (nid b) (F b) d') d bs) \<and>
     (\<forall>cn. cn \<in> set (nodes d) \<longrightarrow> (\<forall>b \<in> set bs. nid b \<notin> set (nids cn)) \<longrightarrow>
        cn \<in> set (nodes (foldl (\<lambda>d' b. updNode (nid b) (F b) d') d bs)))"
proof (induction bs arbitrary: d)
  case Nil
  then show ?case by (simp add: tracks_refl)
next
  case (Cons b bs)
  let ?d1 = "updNode (nid b) (F b) d"
  let ?g = "\<lambda>d' b. updNode (nid b) (F b) d'"
  have wf1: "wfTree ?d1" using Cons(2) by (simp add: wfTree_updNode a c)
  have n1: "nids ?d1 = nids d" by (simp add: nids_updNode a c)
  have t1: "tracks {nid b} d ?d1"
    by (rule tracks_updNode) (simp add: a c)
  have k1: "\<And>cn. cn \<in> set (nodes d) \<Longrightarrow> nid b \<notin> set (nids cn) \<Longrightarrow> cn \<in> set (nodes ?d1)"
    by (rule updNode_keeps_node) (simp_all add: c)
  have ih: "wfTree (foldl ?g ?d1 bs) \<and> nids (foldl ?g ?d1 bs) = nids ?d1 \<and>
     tracks (nid ` set bs) ?d1 (foldl ?g ?d1 bs) \<and>
     (\<forall>cn. cn \<in> set (nodes ?d1) \<longrightarrow> (\<forall>b \<in> set bs. nid b \<notin> set (nids cn)) \<longrightarrow>
        cn \<in> set (nodes (foldl ?g ?d1 bs)))"
    by (rule Cons(1) [OF wf1])
  have "tracks ({nid b} \<union> nid ` set bs) d (foldl ?g ?d1 bs)"
    using tracks_trans [OF t1] ih by blast
  then have t: "tracks (nid ` set (b # bs)) d (foldl ?g d (b # bs))" by simp
  show ?case using ih n1 t k1 by simp
qed

lemma updateSortIndicator_keeps:
  assumes wf: "wfTree d"
  shows "wfTree (updateSortIndicator m d) \<and> nids (updateSortIndicator m d) = nids d \<and>
     tracks (nid ` set (querySelectorAll [[Cls ''pr-sorter-btn'', AttrHas ''data-sort'']] d)) d
       (updateSortIndicator m d) \<and>
     (\<forall>cn. cn \<in> set (nodes d) \<longrightarrow>
        (\<forall>b \<in> set (querySelectorAll [[Cls ''pr-sorter-btn'', AttrHas ''data-sort'']] d).
           nid b \<notin> set (nids cn)) \<longrightarrow>
        cn \<in> set (nodes (updateSortIndicator m d)))"
  unfolding updateSortIndicator_def Let_def
  by (rule foldl_updNode_attrs [OF _ _ wf])
    (simp_all add: nid_setAttr nid_classToggle childNodes_setAttr childNodes_classToggle)

lemma documentBody_SomeD:
  "documentBody d = Some b \<Longrightarrow>
   b \<in> set (descendants d) \<and> isElement b \<and> (tagName b = ''body'' \<or> tagName b = ''frameset'')"
proof -
  assume a: "documentBody d = Some b"
  then obtain html where h: "find isElement (childNodes d) = Some html"
    and b: "find (\<lambda>c. isElement c \<and> (tagName c = ''body'' \<or> tagName c = ''frameset''))
              (childNodes html) = Some b"
    by (auto simp: documentBody_def split: option.splits if_splits)
  have "html \<in> set (childNodes d)" using find_SomeD [OF h] by simp
  then have hd: "html \<in> set (descendants d)" by (rule child_in_descendants)
  have bc: "b \<in> set (childNodes html)" using find_SomeD [OF b] by simp
  then have "b \<in> set (nodes html)" using child_in_descendants by (simp add: nodes_def)
  moreover have "set (nodes html) \<subseteq> set (descendants d)"
    using hd by (auto simp: descendants_childNodes dest: nodes_trans)
  ultimately show ?thesis using find_SomeD [OF b] by auto
qed

lemma nids_notificationNode:
  "nids (notificationNode k msg e) = [k, k + 1, k + 2, k + 3, k + 4, k + 5, k + 6, k + 7]"
  by (simp add: notificationNode_def nids_Element nids_Text)

lemma childNodes_append_subset:
  "set (childNodes n) \<subseteq> set (childNodes (withChildren (\<lambda>cs. cs @ [x]) n))"
  by (cases n) auto

lemma showNotification_keeps:
  assumes wf: "wfTree (doc w)" and fr: "freshIds w" and cn: "cn \<in> set (nodes (doc w))"
    and apart: "\<And>e. e \<in> set (descendants (doc w)) \<Longrightarrow>
                  matches [[Cls ''pr-sorter-notification'']] e \<Longrightarrow>
                  nid e \<notin> set (nids cn) \<and> cn \<notin> set (nodes e)"
    and nobody: "\<And>n. n \<in> set (nodes cn) \<Longrightarrow> tagName n \<noteq> ''body'' \<and> tagName n \<noteq> ''frameset''"
  shows "wfTree (doc (final (showNotification msg err w))) \<and>
         cn \<in> set (nodes (doc (final (showNotification msg err w))))"
proof -
  define d1 where "d1 = (case querySelector [[Cls ''pr-sorter-notification'']] (doc w) of
                           None \<Rightarrow> doc w | Some e \<Rightarrow> removeNode (nid e) (doc w))"
  define nf where "nf = notificationNode (fresh w) msg err"
  have wf1: "wfTree d1" using wf by (simp add: d1_def wfTree_removeNode split: option.split)
  have sub1: "set (nids d1) \<subseteq> set (nids (doc w))"
    using wf by (auto simp: d1_def split: option.split dest: nids_removeNode_subset [THEN subsetD])
  have cn1: "cn \<in> set (nodes d1)"
  proof (cases "querySelector [[Cls ''pr-sorter-notification'']] (doc w)")
    case None
    then show ?thesis using cn by (simp add: d1_def)
  next
    case (Some e)
    have e: "e \<in> set (descendants (doc w))" "matches [[Cls ''pr-sorter-notification'']] e"
      using find_SomeD [OF Some [unfolded querySelector_def]] by simp_all
    have ed: "e \<in> set (nodes (doc w))" using e(1) by (simp add: nodes_def)
    have "cn \<in> set (nodes (removeNode (nid e) (doc w)))"
    proof (rule removeNode_keeps_node [OF cn])
      show "nid e \<notin> set (nids cn)" using apart [OF e] by simp
    next
      fix xn assume xn: "xn \<in> set (nodes (doc w))" "nid xn = nid e"
      have "xn = e" by (rule same_nid_same_node [OF wf xn(1) ed xn(2)])
      then show "cn \<notin> set (nodes xn)" using apart [OF e] by simp
    qed
    then show ?thesis using Some by (simp add: d1_def)
  qed
  have fresh1: "\<And>k. k \<in> set (nids d1) \<Longrightarrow> k < fresh w"
    using sub1 fr by (auto simp: freshIds_def)
  have unfold: "showNotification msg err w =
      (case documentBody d1 of
         None \<Rightarrow> Threw TypeError (w\<lparr>doc := d1, fresh := fresh w + 8\<rparr>)
       | Some body \<Rightarrow>
          (case insertNode (nid body) nf None d1 of
             Abrupt e \<Rightarrow> Threw e (w\<lparr>doc := d1, fresh := fresh w + 8\<rparr>)
           | Normal d' \<Rightarrow>
              Returned (w\<lparr>doc := d', fresh := fresh w + 8,
                 timers := timers w @
                   [(nextTimer w, 0, NotificationShow (nid nf)),
                    (nextTimer w + 1, 2000, NotificationHide (nid nf))],
                 nextTimer := nextTimer w + 2\<rparr>)))"
    unfolding showNotification_def Let_def d1_def nf_def
    by (simp split: option.split completion.split)
  show ?thesis
  proof (cases "documentBody d1")
    case None
    then show ?thesis using wf1 cn1 by (simp add: unfold)
  next
    case (Some body)
    have bd: "body \<in> set (descendants d1)" "isElement body"
      "tagName body = ''body'' \<or> tagName body = ''frameset''"
      using documentBody_SomeD [OF Some] by simp_all
    have bn: "body \<in> set (nodes d1)" using bd(1) by (simp add: nodes_def)
    have lb: "lookup (nid body) d1 = Some body" by (rule lookup_wf [OF wf1 bn])
    have bfresh: "nid body < fresh w" using fresh1 bn by (auto simp: nids_def)
    have nc: "\<not> contains nf (nid body)"
      using bfresh by (auto simp: contains_def nf_def nids_notificationNode)
    have nr: "nid body \<noteq> nid d1" by (rule descendant_not_root [OF wf1 bd(1)])
    have nfid: "nid nf = fresh w" by (simp add: nf_def notificationNode_def)
    have "fresh w \<notin> set (nids d1)" using fresh1 by blast
    then have rm: "removeNode (fresh w) d1 = d1" by (rule removeNode_other)
    define d4 where "d4 = updNode (nid body) (withChildren (\<lambda>cs. cs @ [nf])) d1"
    have ins: "insertNode (nid body) nf None d1 = Normal d4"
      unfolding insertNode_def d4_def
      using lb bd(2) nc nr by (simp add: nfid rm placeBefore_def [abs_def])
    have "mset (nids d4) + {#} = mset (nids d1) + mset (nids nf)"
      unfolding d4_def by (rule nids_change_children [OF wf1 bn bd(2)]) simp
    then have "mset (nids d4) = mset (nids d1 @ nids nf)" by simp
    moreover have "distinct (nids d1 @ nids nf)"
    proof -
      have "\<And>k. k \<in> set (nids nf) \<Longrightarrow> fresh w \<le> k"
        by (auto simp: nf_def nids_notificationNode)
      then have "set (nids d1) \<inter> set (nids nf) = {}" using fresh1 by fastforce
      moreover have "distinct (nids nf)" by (simp add: nf_def nids_notificationNode)
      ultimately show ?thesis using wf1 by (simp add: wfTree_def)
    qed
    ultimately have wf4: "wfTree d4" unfolding wfTree_def by (metis mset_eq_imp_distinct_iff)
    have "nid body \<notin> set (nids cn)"
    proof
      assume "nid body \<in> set (nids cn)"
      then obtain y where y: "y \<in> set (nodes cn)" "nid y = nid body" by (auto simp: nids_def)
      have "y \<in> set (nodes d1)" using nodes_trans [OF y(1) cn1] .
      then have "y = body" by (rule same_nid_same_node [OF wf1 _ bn y(2)])
      then show False using nobody [OF y(1)] bd(3) by simp
    qed
    then have "cn \<in> set (nodes d4)"
      unfolding d4_def using childNodes_append_subset cn1 by (intro updNode_keeps_node)
    then show ?thesis using wf4 Some ins by (simp add: unfold)
  qed
qed

subsection \<open>The announcement leaves the container alone\<close>

lemma querySelectorAll_D:
  "b \<in> set (querySelectorAll sel d) \<Longrightarrow> b \<in> set (descendants d) \<and> matches sel b"
  by (simp add: querySelectorAll_def)

lemma querySelector_D:
  "querySelector sel d = Some n \<Longrightarrow> n \<in> set (descendants d) \<and> matches sel n"
  unfolding querySelector_def using find_SomeD by fastforce

lemma announceSort_keeps:
  assumes wf: "wfTree (doc w)" and fr: "freshIds w" and cn: "cn \<in> set (nodes (doc w))"
    and ap: "uiApart (doc w) cn"
  shows "wfTree (doc (final (announceSort m w))) \<and>
         cn \<in> set (nodes (doc (final (announceSort m w))))"
proof (cases "uiLoaded w")
  case False
  then show ?thesis using wf cn by (simp add: announceSort_def)
next
  case True
  let ?selB = "[[Cls ''pr-sorter-btn'', AttrHas ''data-sort'']]"
  let ?selN = "[[Cls ''pr-sorter-notification'']]"
  let ?d = "doc w"
  let ?btns = "querySelectorAll ?selB ?d"
  define d2 where "d2 = updateSortIndicator m ?d"
  define w2 where "w2 = w\<lparr>doc := d2\<rparr>"
  have k: "wfTree d2" "nids d2 = nids ?d" "tracks (nid ` set ?btns) ?d d2"
    "\<And>cn. cn \<in> set (nodes ?d) \<Longrightarrow> (\<forall>b \<in> set ?btns. nid b \<notin> set (nids cn)) \<Longrightarrow>
        cn \<in> set (nodes d2)"
    using updateSortIndicator_keeps [OF wf, of m] unfolding d2_def by blast+
  have related: "\<And>n. n \<in> set (nodes ?d) \<Longrightarrow> nid n \<in> set (nids cn) \<or> nid cn \<in> set (nids n) \<Longrightarrow>
      \<not> matches ?selB n \<and> \<not> matches ?selN n"
    using ap unfolding uiApart_def by blast
  have btn: "\<forall>b \<in> set ?btns. nid b \<notin> set (nids cn)"
  proof
    fix b assume b: "b \<in> set ?btns"
    have bd: "b \<in> set (nodes ?d)" "matches ?selB b"
      using querySelectorAll_D [OF b] by (simp_all add: nodes_def)
    show "nid b \<notin> set (nids cn)" using related [OF bd(1)] bd(2) by blast
  qed
  have cn2: "cn \<in> set (nodes d2)" by (rule k(4) [OF cn btn])
  have wf2: "wfTree (doc w2)" using k(1) by (simp add: w2_def)
  have fr2: "freshIds w2" using fr k(2) by (simp add: freshIds_def w2_def)
  have cn2': "cn \<in> set (nodes (doc w2))" using cn2 by (simp add: w2_def)
  have apart2: "\<And>e. e \<in> set (descendants (doc w2)) \<Longrightarrow> matches ?selN e \<Longrightarrow>
                  nid e \<notin> set (nids cn) \<and> cn \<notin> set (nodes e)"
  proof (rule ccontr)
    fix e assume e: "e \<in> set (descendants (doc w2))" "matches ?selN e"
      and neg: "\<not> (nid e \<notin> set (nids cn) \<and> cn \<notin> set (nodes e))"
    have "e \<in> set (nodes d2)" using e(1) by (simp add: w2_def nodes_def)
    then obtain e0 where e0: "e0 \<in> set (nodes ?d)" "nid e0 = nid e"
      "set (nids e0) = set (nids e)" "nid e \<notin> nid ` set ?btns \<longrightarrow> shallow e0 = shallow e"
      using k(3) unfolding tracks_def by blast
    have "cn \<in> set (nodes e) \<Longrightarrow> nid cn \<in> set (nids e)" by (auto simp: nids_def)
    then have "nid e0 \<in> set (nids cn) \<or> nid cn \<in> set (nids e0)"
      using neg e0(2,3) by auto
    then have nm: "\<not> matches ?selB e0" "\<not> matches ?selN e0"
      using related [OF e0(1)] by simp_all
    have "nid e \<notin> nid ` set ?btns"
    proof
      assume "nid e \<in> nid ` set ?btns"
      then obtain b where b: "b \<in> set ?btns" "nid b = nid e" by auto
      have bd: "b \<in> set (nodes ?d)" "matches ?selB b"
        using querySelectorAll_D [OF b(1)] by (simp_all add: nodes_def)
      have "b = e0" using same_nid_same_node [OF wf bd(1) e0(1)] b(2) e0(2) by simp
      then show False using bd(2) nm(1) by simp
    qed
    then have "shallow e0 = shallow e" using e0(4) by simp
    then have "matches ?selN e0" using matches_shallow e(2) by blast
    then show False using nm(2) by simp
  qed
  have nobody: "\<And>n. n \<in> set (nodes cn) \<Longrightarrow> tagName n \<noteq> ''body'' \<and> tagName n \<noteq> ''frameset''"
    using ap unfolding uiApart_def by blast
  have "wfTree (doc (final (showNotification (''Comments sorted: '' @ getSortLabel m) False w2))) \<and>
        cn \<in> set (nodes (doc (final (showNotification (''Comments sorted: '' @ getSortLabel m)
                 False w2))))"
    by (rule showNotification_keeps [OF wf2 fr2 cn2' apart2 nobody])
  then show ?thesis using True by (simp add: announceSort_def w2_def d2_def)
qed

subsection \<open>The sort is a permutation\<close>

lemma mset_insortBy: "mset (insortBy cmp x ys) = add_mset x (mset ys)"
  by (induction ys) simp_all

lemma mset_arraySort: "mset (arraySort cmp xs) = mset xs"
  by (induction xs) (simp_all add: arraySort_def mset_insortBy)

lemma set_arraySort: "set (arraySort cmp xs) = set xs"
  using mset_arraySort [of cmp xs] by (metis set_mset_mset)

lemma uiApart_reorder:
  assumes wf: "wfTree d" and cn: "cn \<in> set (nodes d)" and el: "isElement cn"
    and ap: "uiApart d cn" and g: "set (g (childNodes cn)) = set (childNodes cn)"
  shows "uiApart (updNode (nid cn) (withChildren g) d) (withChildren g cn)"
proof -
  let ?d' = "updNode (nid cn) (withChildren g) d"
  let ?cn' = "withChildren g cn"
  have ch: "set (childNodes ?cn') = set (childNodes cn)"
    using g by (simp add: childNodes_withChildren [OF el])
  have ids: "set (nids ?cn') = set (nids cn)"
    by (rule set_nids_childNodes [OF nid_withChildren ch])
  have tr: "tracks {} d ?d'"
  proof (rule tracks_updNode)
    fix n assume n: "n \<in> set (nodes d)" "nid n = nid cn"
    have "n = cn" by (rule same_nid_same_node [OF wf n(1) cn n(2)])
    then show "nid (withChildren g n) = nid cn \<and>
          set (childNodes (withChildren g n)) = set (childNodes n) \<and>
          (nid cn \<notin> {} \<longrightarrow> shallow (withChildren g n) = shallow n)"
      using ch by (simp add: nid_withChildren shallow_withChildren)
  qed
  have one: "\<forall>n' \<in> set (nodes ?d').
         nid n' \<in> set (nids ?cn') \<or> nid ?cn' \<in> set (nids n') \<longrightarrow>
         \<not> matches [[Cls ''pr-sorter-btn'', AttrHas ''data-sort'']] n' \<and>
         \<not> matches [[Cls ''pr-sorter-notification'']] n'"
  proof (intro ballI impI)
    fix n' assume n': "n' \<in> set (nodes ?d')"
      and rel: "nid n' \<in> set (nids ?cn') \<or> nid ?cn' \<in> set (nids n')"
    obtain n where n: "n \<in> set (nodes d)" "nid n = nid n'" "set (nids n) = set (nids n')"
      "shallow n = shallow n'"
      using tr n' unfolding tracks_def by blast
    have "nid n \<in> set (nids cn) \<or> nid cn \<in> set (nids n)"
      using rel n(2,3) ids by (simp add: nid_withChildren)
    then have "\<not> matches [[Cls ''pr-sorter-btn'', AttrHas ''data-sort'']] n \<and>
         \<not> matches [[Cls ''pr-sorter-notification'']] n"
      using ap n(1) unfolding uiApart_def by blast
    then show "\<not> matches [[Cls ''pr-sorter-btn'', AttrHas ''data-sort'']] n' \<and>
         \<not> matches [[Cls ''pr-sorter-notification'']] n'"
      using matches_shallow [OF n(4)] by simp
  qed
  have two: "\<forall>n \<in> set (nodes ?cn'). tagName n \<noteq> ''body'' \<and> tagName n \<noteq> ''frameset''"
  proof
    fix n assume n: "n \<in> set (nodes ?cn')"
    have a: "\<And>n. n \<in> set (nodes cn) \<Longrightarrow> tagName n \<noteq> ''body'' \<and> tagName n \<noteq> ''frameset''"
      using ap unfolding uiApart_def by blast
    show "tagName n \<noteq> ''body'' \<and> tagName n \<noteq> ''frameset''"
    proof (cases "n = ?cn'")
      case True
      have "tagName ?cn' = tagName cn" by (cases cn) simp_all
      then show ?thesis using True a [OF self_in_nodes] by simp
    next
      case False
      then have "n \<in> set (descendants ?cn')" using n by (simp add: nodes_def)
      then have "n \<in> set (descendants cn)" using ch by (auto simp: descendants_childNodes)
      then show ?thesis using a by (simp add: nodes_def)
    qed
  qed
  show ?thesis unfolding uiApart_def using one two by blast
qed

subsection \<open>What a sort does to the comment container\<close>

lemma children_sorted:
  assumes dc: "distinct (map nid cs)" and s: "mset srt = mset (filter isElement cs)"
  shows "filter (\<lambda>n. nid n \<notin> nid ` set srt) cs = filter (\<lambda>n. \<not> isElement n) cs"
proof (rule filter_cong [OF refl])
  fix x assume x: "x \<in> set cs"
  have ss: "set srt = set (filter isElement cs)" using s by (metis set_mset_mset)
  show "(nid x \<notin> nid ` set srt) = (\<not> isElement x)"
  proof
    assume "nid x \<notin> nid ` set srt"
    then show "\<not> isElement x" using x ss by auto
  next
    assume ne: "\<not> isElement x"
    show "nid x \<notin> nid ` set srt"
    proof
      assume "nid x \<in> nid ` set srt"
      then obtain y where y: "y \<in> set srt" "nid y = nid x" by auto
      then have yc: "y \<in> set cs" "isElement y" using ss by simp_all
      have "inj_on nid (set cs)" using dc by (simp add: distinct_map)
      then have "y = x" using yc(1) x y(2) by (simp add: inj_on_def)
      then show False using yc(2) ne by simp
    qed
  qed
qed

lemma applySorting_reorders:
  assumes wf: "wfTree (doc w)" and fr: "freshIds w"
    and q: "querySelector [[Cls ''js-discussion'']] (doc w) = Some cn"
    and ap: "uiApart (doc w) cn"
  shows "\<exists>cn'. lookup (nid cn) (doc (final (applySorting parse m w))) = Some cn' \<and>
           childNodes cn' = filter (\<lambda>n. \<not> isElement n) (childNodes cn)
                              @ arraySort (compareChildren parse m) (children cn) \<and>
           wfTree (doc (final (applySorting parse m w)))"
proof -
  let ?d = "doc w"
  let ?cs = "childNodes cn"
  let ?sorted = "arraySort (compareChildren parse m) (children cn)"
  define w1 where "w1 = savePreference m (w\<lparr>state := (state w)\<lparr>currentSort := m\<rparr>\<rparr>)"
  have w1: "doc w1 = ?d" "fresh w1 = fresh w" by (simp_all add: w1_def savePreference_def)
  have cd: "cn \<in> set (descendants ?d)" and el: "isElement cn"
    using querySelector_D [OF q] by (simp_all add: matches_def)
  have cn: "cn \<in> set (nodes ?d)" using cd by (simp add: nodes_def)
  have dc: "distinct (map nid ?cs)"
    using distinct_child_nids wfTree_subtree [OF cn wf] by blast
  show ?thesis
  proof (cases "children cn = []")
    case True
    have "applySorting parse m w = Returned w1"
      unfolding applySorting_def Let_def w1_def [symmetric] using q True by (simp add: w1)
    moreover have "filter (\<lambda>n. \<not> isElement n) ?cs = ?cs"
      using True by (simp add: children_def filter_empty_conv)
    ultimately show ?thesis
      using True lookup_wf [OF wf cn] wf by (simp add: w1 arraySort_def)
  next
    case False
    let ?G = "\<lambda>cs. filter (\<lambda>n. nid n \<notin> nid ` set ?sorted) cs @ ?sorted"
    let ?d' = "updNode (nid cn) (withChildren ?G) ?d"
    let ?cn' = "withChildren ?G cn"
    have ms: "mset ?sorted = mset (filter isElement ?cs)"
      by (simp add: mset_arraySort children_def)
    have sub: "set ?sorted \<subseteq> set ?cs" by (auto simp: set_arraySort children_def)
    have "mset (map nid ?sorted) = mset (map nid (filter isElement ?cs))"
      using ms by (metis mset_map)
    moreover have "distinct (map nid (filter isElement ?cs))"
      using dc by (rule distinct_map_filter)
    ultimately have ds: "distinct (map nid ?sorted)" by (metis mset_eq_imp_distinct_iff)
    have ne: "?sorted \<noteq> []" using False ms by (metis children_def mset_zero_iff)
    have loop: "appendAll (nid cn) ?sorted ?d = (None, ?d')"
      by (rule appendAll_children [OF wf cd el sub ds])
    have G: "?G ?cs = filter (\<lambda>n. \<not> isElement n) ?cs @ ?sorted"
      by (simp add: children_sorted [OF dc ms])
    have mG: "mset (?G ?cs) = mset ?cs"
      unfolding G using ms by (simp add: union_commute)
    have "mset (nids ?d') = mset (nids ?d)"
    proof (rule nids_permute_children)
      fix n assume n: "n \<in> set (nodes ?d)" "nid n = nid cn"
      have "n = cn" by (rule same_nid_same_node [OF wf n(1) cn n(2)])
      then show "mset (?G (childNodes n)) = mset (childNodes n)" using mG by simp
    qed
    then have wf': "wfTree ?d'" and ids': "set (nids ?d') = set (nids ?d)"
      using wf unfolding wfTree_def by (metis mset_eq_imp_distinct_iff, metis set_mset_mset)
    have l': "lookup (nid cn) ?d' = Some ?cn'"
      by (simp add: lookup_updNode_same nid_withChildren lookup_wf [OF wf cn])
    have cn': "?cn' \<in> set (nodes ?d')" using lookup_SomeD [OF l'] by simp
    have "set (?G ?cs) = set ?cs" using mG by (metis set_mset_mset)
    then have ap': "uiApart ?d' ?cn'" by (rule uiApart_reorder [OF wf cn el ap])
    define w' where "w' = w1\<lparr>doc := ?d'\<rparr>"
    have wfw: "wfTree (doc w')" using wf' by (simp add: w'_def)
    have frw: "freshIds w'" using fr ids' by (simp add: freshIds_def w'_def w1)
    have cnw: "?cn' \<in> set (nodes (doc w'))" using cn' by (simp add: w'_def)
    have apw: "uiApart (doc w') ?cn'" using ap' by (simp add: w'_def)
    have keep: "wfTree (doc (final (announceSort m w'))) \<and>
                ?cn' \<in> set (nodes (doc (final (announceSort m w'))))"
      by (rule announceSort_keeps [OF wfw frw cnw apw])
    have run: "applySorting parse m w = announceSort m w'"
      unfolding applySorting_def Let_def w1_def [symmetric] w'_def
      using q False ne loop by (simp add: w1 reorderElements_def)
    have "lookup (nid ?cn') (doc (final (announceSort m w'))) = Some ?cn'"
      using keep by (intro lookup_wf) simp_all
    then have "lookup (nid cn) (doc (final (applySorting parse m w))) = Some ?cn'"
      by (simp add: run nid_withChildren)
    moreover have "childNodes ?cn' = filter (\<lambda>n. \<not> isElement n) ?cs @ ?sorted"
      using G by (simp add: childNodes_withChildren [OF el])
    ultimately show ?thesis using keep run by auto
  qed
qed

subsection \<open>The order of a sort whose dates all parse\<close>

lemma compare_total:
  assumes "dateOf parse a \<noteq> None" and "dateOf parse b \<noteq> None"
  shows "sortCompare (compareChildren parse m) a b \<le> 0 \<or>
         sortCompare (compareChildren parse m) b a \<le> 0"
proof -
  obtain x y where "dateOf parse a = Some x" "dateOf parse b = Some y" using assms by auto
  then show ?thesis
    by (simp add: sortCompare_def compareChildren_def dateDiff_def Let_def) linarith
qed

lemma compare_trans:
  assumes "dateOf parse a \<noteq> None" and "dateOf parse b \<noteq> None" and "dateOf parse c \<noteq> None"
    and "sortCompare (compareChildren parse m) a b \<le> 0"
    and "sortCompare (compareChildren parse m) b c \<le> 0"
  shows "sortCompare (compareChildren parse m) a c \<le> 0"
proof -
  obtain x y z where d: "dateOf parse a = Some x" "dateOf parse b = Some y" "dateOf parse c = Some z"
    using assms(1-3) by auto
  show ?thesis
    using assms(4,5)
    by (simp add: sortCompare_def compareChildren_def dateDiff_def Let_def d split: if_splits)
qed

lemma set_insortBy: "set (insortBy cmp x ys) = insert x (set ys)"
  by (induction ys) auto

lemma sorted_insortBy:
  assumes tot: "\<And>a b. a \<in> A \<Longrightarrow> b \<in> A \<Longrightarrow> sortCompare cmp a b \<le> 0 \<or> sortCompare cmp b a \<le> 0"
    and tr: "\<And>a b c. a \<in> A \<Longrightarrow> b \<in> A \<Longrightarrow> c \<in> A \<Longrightarrow> sortCompare cmp a b \<le> 0 \<Longrightarrow>
               sortCompare cmp b c \<le> 0 \<Longrightarrow> sortCompare cmp a c \<le> 0"
  shows "x \<in> A \<Longrightarrow> set ys \<subseteq> A \<Longrightarrow> sorted_wrt (\<lambda>a b. sortCompare cmp a b \<le> 0) ys \<Longrightarrow>
         sorted_wrt (\<lambda>a b. sortCompare cmp a b \<le> 0) (insortBy cmp x ys)"
proof (induction ys)
  case Nil
  then show ?case by simp
next
  case (Cons y ys)
  show ?case
  proof (cases "sortCompare cmp x y \<le> 0")
    case True
    have "\<And>z. z \<in> set ys \<Longrightarrow> sortCompare cmp x z \<le> 0"
    proof -
      fix z assume z: "z \<in> set ys"
      then have "sortCompare cmp y z \<le> 0" using Cons(4) by simp
      then show "sortCompare cmp x z \<le> 0" using tr [of x y z] True Cons(2,3) z by auto
    qed
    then show ?thesis using True Cons(4) by simp
  next
    case False
    then have yx: "sortCompare cmp y x \<le> 0" using tot [of x y] Cons(2,3) by auto
    have "sorted_wrt (\<lambda>a b. sortCompare cmp a b \<le> 0) (insortBy cmp x ys)"
      using Cons by simp
    then show ?thesis using False yx Cons(4) by (simp add: set_insortBy)
  qed
qed

lemma sorted_arraySort:
  assumes tot: "\<And>a b. a \<in> set xs \<Longrightarrow> b \<in> set xs \<Longrightarrow>
                  sortCompare cmp a b \<le> 0 \<or> sortCompare cmp b a \<le> 0"
    and tr: "\<And>a b c. a \<in> set xs \<Longrightarrow> b \<in> set xs \<Longrightarrow> c \<in> set xs \<Longrightarrow>
               sortCompare cmp a b \<le> 0 \<Longrightarrow> sortCompare cmp b c \<le> 0 \<Longrightarrow> sortCompare cmp a c \<le> 0"
  shows "sorted_wrt (\<lambda>a b. sortCompare cmp a b \<le> 0) (arraySort cmp xs)"
proof -
  have "\<And>zs. set zs \<subseteq> set xs \<Longrightarrow>
          sorted_wrt (\<lambda>a b. sortCompare cmp a b \<le> 0) (foldr (insortBy cmp) zs [])"
  proof -
    fix zs show "set zs \<subseteq> set xs \<Longrightarrow>
          sorted_wrt (\<lambda>a b. sortCompare cmp a b \<le> 0) (foldr (insortBy cmp) zs [])"
    proof (induction zs)
      case Nil
      then show ?case by simp
    next
      case (Cons z zs)
      have s: "set (foldr (insortBy cmp) zs []) \<subseteq> set xs"
        using set_arraySort [of cmp zs] Cons(2) by (simp add: arraySort_def)
      show ?case
        using sorted_insortBy [of "set xs" cmp z "foldr (insortBy cmp) zs []", OF tot tr] Cons s
        by simp
    qed
  qed
  then show ?thesis by (simp add: arraySort_def)
qed

text \<open>
  C5. On a page of distinct node objects whose injected UI lies apart from the comment
  container, \<open>applySorting(m)\<close> leaves the container object in the page with the same
  children as before: the same node values, each as often as before (none added,
  removed, duplicated or changed), and no node object occurs twice in the page.
  This holds for every comparator result, whether or not the call returns normally, and
  for the empty child list too. When the date of every child parses, so that the
  comparator is consistent, the element children come in the comparator's order, ties in
  their old order.
\<close>

theorem C5_sort_permutes_children:
  assumes "wfTree (doc w)" and "freshIds w"
    and "querySelector [[Cls ''js-discussion'']] (doc w) = Some cn"
    and "uiApart (doc w) cn"
  shows "\<exists>cn'. lookup (nid cn) (doc (final (applySorting parse m w))) = Some cn' \<and>
           mset (children cn') = mset (children cn) \<and>
           mset (childNodes cn') = mset (childNodes cn) \<and>
           wfTree (doc (final (applySorting parse m w))) \<and>
           ((\<forall>c \<in> set (children cn). dateOf parse c \<noteq> None) \<longrightarrow>
              children cn' = arraySort (compareChildren parse m) (children cn) \<and>
              sorted_wrt (\<lambda>a b. sortCompare (compareChildren parse m) a b \<le> 0) (children cn'))"
proof -
  let ?srt = "arraySort (compareChildren parse m) (children cn)"
  obtain cn' where c: "lookup (nid cn) (doc (final (applySorting parse m w))) = Some cn'"
    "childNodes cn' = filter (\<lambda>n. \<not> isElement n) (childNodes cn) @ ?srt"
    "wfTree (doc (final (applySorting parse m w)))"
    using applySorting_reorders [OF assms] by blast
  have "set ?srt = set (children cn)" by (rule set_arraySort)
  then have "\<And>n. n \<in> set ?srt \<Longrightarrow> isElement n" by (simp add: children_def)
  then have "filter isElement ?srt = ?srt" by simp
  then have ch: "children cn' = ?srt" by (simp add: children_def c(2))
  have m1: "mset (children cn') = mset (children cn)" by (simp add: ch mset_arraySort)
  have "mset (childNodes cn') = mset (filter (\<lambda>n. \<not> isElement n) (childNodes cn))
          + mset (filter isElement (childNodes cn))"
    by (simp add: c(2) mset_arraySort children_def)
  then have m2: "mset (childNodes cn') = mset (childNodes cn)"
    by (simp add: union_commute)
  have ord: "(\<forall>c \<in> set (children cn). dateOf parse c \<noteq> None) \<longrightarrow>
               sorted_wrt (\<lambda>a b. sortCompare (compareChildren parse m) a b \<le> 0) ?srt"
  proof
    assume v: "\<forall>c \<in> set (children cn). dateOf parse c \<noteq> None"
    show "sorted_wrt (\<lambda>a b. sortCompare (compareChildren parse m) a b \<le> 0) ?srt"
    proof (rule sorted_arraySort)
      fix a b assume "a \<in> set (children cn)" "b \<in> set (children cn)"
      then show "sortCompare (compareChildren parse m) a b \<le> 0 \<or>
                 sortCompare (compareChildren parse m) b a \<le> 0"
        using v compare_total by blast
    next
      fix a b c assume "a \<in> set (children cn)" "b \<in> set (children cn)" "c \<in> set (children cn)"
        "sortCompare (compareChildren parse m) a b \<le> 0"
        "sortCompare (compareChildren parse m) b c \<le> 0"
      then show "sortCompare (compareChildren parse m) a c \<le> 0"
        using v compare_trans by blast
    qed
  qed
  show ?thesis using c(1,3) ch m1 m2 ord by auto
qed

lemma nids_sortedPage:
  "nids sortedPage = [0, 1, 2, 30, 31, 32, 3, 4, 11, 12, 13, 5, 21, 22, 23, 40, 41]"
  by (simp add: sortedPage_def nids_Element nids_Text nids_threads)

lemma container_sortedPage:
  "querySelector [[Cls ''js-discussion'']] sortedPage
     = Some (Element 4 ''div'' [(''class'', ''js-discussion'')] plainBox
               [resolvedThread, Text 5 [CHR 0x0A] None, unresolvedThread])"
  by (simp add: sortedPage_def query_defs cls_threads)

lemma uiApart_sortedPage:
  "uiApart sortedPage (Element 4 ''div'' [(''class'', ''js-discussion'')] plainBox
               [resolvedThread, Text 5 [CHR 0x0A] None, unresolvedThread])"
  unfolding uiApart_def sortedPage_def resolvedThread_def unresolvedThread_def
  by (simp add: nodes_Element nodes_Text nids_Element nids_Text query_defs)

theorem C5_sort_permutes_children_witness:
  "wfTree (doc sortedWorld) \<and> freshIds sortedWorld \<and>
   (\<exists>cn. querySelector [[Cls ''js-discussion'']] (doc sortedWorld) = Some cn \<and>
      uiApart (doc sortedWorld) cn \<and>
      children cn = [resolvedThread, unresolvedThread] \<and>
      (\<forall>c \<in> set (children cn). dateOf exampleParse c \<noteq> None) \<and>
      (\<exists>cn'. lookup (nid cn) (doc (final (applySorting exampleParse ''date-newest'' sortedWorld)))
                = Some cn' \<and>
             mset (children cn') = mset (children cn) \<and>
             children cn' = [unresolvedThread, resolvedThread]))"
proof -
  let ?cn = "Element 4 ''div'' [(''class'', ''js-discussion'')] plainBox
               [resolvedThread, Text 5 [CHR 0x0A] None, unresolvedThread]"
  have d: "doc sortedWorld = sortedPage" "fresh sortedWorld = 100"
    by (simp_all add: sortedWorld_def)
  have wf: "wfTree (doc sortedWorld)" by (simp add: d wfTree_def nids_sortedPage)
  have fr: "freshIds sortedWorld" by (simp add: freshIds_def d nids_sortedPage)
  have q: "querySelector [[Cls ''js-discussion'']] (doc sortedWorld) = Some ?cn"
    by (simp add: d container_sortedPage)
  have ap: "uiApart (doc sortedWorld) ?cn" by (simp add: d uiApart_sortedPage)
  have ch: "children ?cn = [resolvedThread, unresolvedThread]"
    by (simp add: children_def nid_threads)
  have v: "\<forall>c \<in> set (children ?cn). dateOf exampleParse c \<noteq> None"
    by (simp add: ch date_threads)
  have srt: "arraySort (compareChildren exampleParse ''date-newest'')
               [resolvedThread, unresolvedThread] = [unresolvedThread, resolvedThread]"
    by (simp add: arraySort_def sortCompare_def compareChildren_def date_threads dateDiff_def
        Let_def)
  have "\<exists>cn'. lookup (nid ?cn) (doc (final (applySorting exampleParse ''date-newest'' sortedWorld)))
                = Some cn' \<and>
             mset (children cn') = mset (children ?cn) \<and>
             children cn' = [unresolvedThread, resolvedThread]"
    using C5_sort_permutes_children [OF wf fr q ap, of exampleParse "''date-newest''"] v
    unfolding ch srt by blast
  then show ?thesis using wf fr q ap ch v by blast
qed


subsection \<open>Parents and siblings\<close>

lemma find_unique:
  "x \<in> set xs \<Longrightarrow> P x \<Longrightarrow> (\<And>y. y \<in> set xs \<Longrightarrow> P y \<Longrightarrow> y = x) \<Longrightarrow> find P xs = Some x"
proof (induction xs)
  case Nil
  then show ?case by simp
next
  case (Cons a xs)
  show ?case
  proof (cases "P a")
    case True
    then have "a = x" using Cons(4) [of a] by simp
    then show ?thesis using True by simp
  next
    case False
    then have "x \<in> set xs" using Cons(2,3) by auto
    then have "find P xs = Some x" using Cons(1) [OF _ Cons(3)] Cons(4) by simp
    then show ?thesis using False by simp
  qed
qed

lemma unique_parent:
  "wfTree d \<Longrightarrow> pn \<in> set (nodes d) \<Longrightarrow> pn' \<in> set (nodes d) \<Longrightarrow>
   xn \<in> set (childNodes pn) \<Longrightarrow> xn \<in> set (childNodes pn') \<Longrightarrow> pn = pn'"
proof (induction d rule: descendants.induct)
  case (1 i t a b cs)
  let ?d = "Element i t a b cs"
  have below: "\<And>p c. p \<in> set (nodes c) \<Longrightarrow> xn \<in> set (childNodes p) \<Longrightarrow>
                 xn \<in> set (descendants c)"
  proof -
    fix p c assume p: "p \<in> set (nodes c)" "xn \<in> set (childNodes p)"
    have "xn \<in> set (descendants p)" using p(2) by (rule child_in_descendants)
    then show "xn \<in> set (descendants c)"
    proof (cases "p = c")
      case True
      then show ?thesis using \<open>xn \<in> set (descendants p)\<close> by simp
    next
      case False
      then have "p \<in> set (descendants c)" using p(1) by (simp add: nodes_def)
      then obtain c' where c': "c' \<in> set (childNodes c)" "p \<in> set (nodes c')"
        by (auto simp: descendants_childNodes)
      have "xn \<in> set (nodes p)" using \<open>xn \<in> set (descendants p)\<close> by (simp add: nodes_def)
      then have "xn \<in> set (nodes c')" using nodes_trans c'(2) by blast
      then show ?thesis using c'(1) by (auto simp: descendants_childNodes)
    qed
  qed
  have top: "\<And>p c. c \<in> set cs \<Longrightarrow> p \<in> set (nodes c) \<Longrightarrow> xn \<in> set (childNodes p) \<Longrightarrow>
               xn \<in> set cs \<Longrightarrow> False"
  proof -
    fix p c assume c: "c \<in> set cs" and p: "p \<in> set (nodes c)" "xn \<in> set (childNodes p)"
      and x: "xn \<in> set cs"
    have xd: "xn \<in> set (descendants c)" by (rule below [OF p])
    then have "nid xn \<in> set (nids c)" by (auto simp: nids_def nodes_def)
    then have "xn = c"
      using children_disjoint [of ?d xn c "nid xn"] 1(2) x c nid_in_nids by simp
    then show False using size_descendants [OF xd] by simp
  qed
  show ?case
  proof (cases "pn = ?d")
    case True
    show ?thesis
    proof (cases "pn' = ?d")
      case True
      then show ?thesis using \<open>pn = ?d\<close> by simp
    next
      case False
      then obtain c where "c \<in> set cs" "pn' \<in> set (nodes c)"
        using 1(4) by (auto simp: nodes_Element)
      then show ?thesis using top [of c pn'] 1(5,6) True by auto
    qed
  next
    case False
    then obtain c where c: "c \<in> set cs" "pn \<in> set (nodes c)"
      using 1(3) by (auto simp: nodes_Element)
    show ?thesis
    proof (cases "pn' = ?d")
      case True
      then show ?thesis using top [OF c 1(5)] 1(6) by auto
    next
      case False
      then obtain c' where c': "c' \<in> set cs" "pn' \<in> set (nodes c')"
        using 1(4) by (auto simp: nodes_Element)
      have "nid xn \<in> set (nids c)" using below [OF c(2) 1(5)] by (auto simp: nids_def nodes_def)
      moreover have "nid xn \<in> set (nids c')"
        using below [OF c'(2) 1(6)] by (auto simp: nids_def nodes_def)
      ultimately have "c = c'" using children_disjoint [of ?d c c' "nid xn"] 1(2) c(1) c'(1) by simp
      then show ?thesis
        using 1(1) [OF c(1) wfTree_child [OF 1(2)] c(2)] c(1) c'(2) 1(5,6) by simp
    qed
  qed
next
  case (2 i s e)
  then show ?case by (simp add: nodes_Text)
qed

lemma parentNode_wf:
  assumes wf: "wfTree d" and pn: "pn \<in> set (nodes d)" and x: "xn \<in> set (childNodes pn)"
  shows "parentNode (nid xn) d = Some pn"
  unfolding parentNode_def
proof (rule find_unique [OF pn])
  show "nid xn \<in> set (map nid (childNodes pn))" using x by simp
next
  fix y assume y: "y \<in> set (nodes d)" "nid xn \<in> set (map nid (childNodes y))"
  then obtain c where c: "c \<in> set (childNodes y)" "nid c = nid xn" by auto
  have "c \<in> set (nodes y)" using child_in_descendants [OF c(1)] by (simp add: nodes_def)
  then have cd: "c \<in> set (nodes d)" using nodes_trans y(1) by blast
  have "xn \<in> set (nodes pn)" using child_in_descendants [OF x] by (simp add: nodes_def)
  then have xd: "xn \<in> set (nodes d)" using nodes_trans pn by blast
  have "c = xn" by (rule same_nid_same_node [OF wf cd xd c(2)])
  then show "y = pn" using unique_parent [OF wf y(1) pn _ x] c(1) by simp
qed

lemma nextSibling_wf:
  "wfTree d \<Longrightarrow> pn \<in> set (nodes d) \<Longrightarrow> xn \<in> set (childNodes pn) \<Longrightarrow>
   nextSibling (nid xn) d = after (nid xn) (childNodes pn)"
  by (simp add: nextSibling_def parentNode_wf)

lemma find_map: "find P (map g xs) = map_option g (find (P \<circ> g) xs)"
  by (induction xs) auto

lemma child_nids_updNode:
  "(\<And>n. nid (f n) = nid n) \<Longrightarrow> (\<And>n. childNodes (f n) = childNodes n) \<Longrightarrow>
   map nid (childNodes (updNode j f n)) = map nid (childNodes n)"
  by (cases n) (simp_all add: nid_updNode comp_def)

lemma after_same_nids:
  "map nid cs = map nid cs' \<Longrightarrow> map_option nid (after k cs) = map_option nid (after k cs')"
proof (induction k cs arbitrary: cs' rule: after.induct)
  case (1 k)
  then show ?case by simp
next
  case (2 k c)
  then show ?case by (cases cs') auto
next
  case (3 k c c' cs)
  then obtain e e' es where es: "cs' = e # e' # es" by (cases cs'; cases "tl cs'") auto
  show ?case using 3 es by auto
qed

lemma parentNode_updNode:
  assumes a: "\<And>n. nid (f n) = nid n" and c: "\<And>n. childNodes (f n) = childNodes n"
    and wf: "wfTree d"
  shows "parentNode k (updNode j f d) = map_option (updNode j f) (parentNode k d)"
proof -
  have "(\<lambda>p. k \<in> set (map nid (childNodes p))) \<circ> updNode j f
          = (\<lambda>p. k \<in> set (map nid (childNodes p)))"
    by (rule ext) (simp only: comp_def child_nids_updNode [of f, OF a c])
  then show ?thesis
    unfolding parentNode_def nodes_updNode [of f, OF a c wf] find_map by simp
qed

lemma position_updNode:
  assumes a: "\<And>n. nid (f n) = nid n" and c: "\<And>n. childNodes (f n) = childNodes n"
    and wf: "wfTree d"
  shows "map_option nid (parentNode k (updNode j f d)) = map_option nid (parentNode k d)"
    and "map_option nid (nextSibling k (updNode j f d)) = map_option nid (nextSibling k d)"
proof -
  show "map_option nid (parentNode k (updNode j f d)) = map_option nid (parentNode k d)"
    by (cases "parentNode k d") (simp_all add: parentNode_updNode [of f, OF a c wf] nid_updNode a)
  show "map_option nid (nextSibling k (updNode j f d)) = map_option nid (nextSibling k d)"
    unfolding nextSibling_def parentNode_updNode [of f, OF a c wf]
    by (cases "parentNode k d")
       (simp_all add: after_same_nids [OF child_nids_updNode [of f, OF a c]])
qed


subsection \<open>Taking a child out and putting it back\<close>

lemma filter_placeBefore:
  assumes x: "nid x = m" and cs: "\<forall>c \<in> set cs. nid c \<noteq> m"
  shows "filter (\<lambda>c. nid c \<noteq> m) (placeBefore x r cs) = cs"
proof -
  have all: "filter (\<lambda>c. nid c \<noteq> m) cs = cs" using cs by (simp add: filter_id_conv)
  show ?thesis
  proof (cases r)
    case None
    then show ?thesis using all x by (simp add: placeBefore_def)
  next
    case (Some c)
    have "filter (\<lambda>c. nid c \<noteq> m) (takeWhile (\<lambda>n. nid n \<noteq> c) cs @ dropWhile (\<lambda>n. nid n \<noteq> c) cs) = cs"
      using all by simp
    then have "filter (\<lambda>c. nid c \<noteq> m) (takeWhile (\<lambda>n. nid n \<noteq> c) cs) @
               filter (\<lambda>c. nid c \<noteq> m) (dropWhile (\<lambda>n. nid n \<noteq> c) cs) = cs"
      by (simp only: filter_append)
    then show ?thesis using Some x by (simp add: placeBefore_def)
  qed
qed

lemma find_placeBefore:
  assumes x: "find Pr (nodes x) = None"
  shows "find Pr (concat (map nodes (placeBefore x r cs))) = find Pr (concat (map nodes cs))"
proof (cases r)
  case None
  then show ?thesis using x by (simp add: placeBefore_def find_append split: option.split)
next
  case (Some c)
  let ?A = "concat (map nodes (takeWhile (\<lambda>n. nid n \<noteq> c) cs))"
  let ?B = "concat (map nodes (dropWhile (\<lambda>n. nid n \<noteq> c) cs))"
  have "concat (map nodes cs) = ?A @ ?B"
    by (metis concat_append map_append takeWhile_dropWhile_id)
  then have "find Pr (concat (map nodes cs)) = find Pr (?A @ ?B)" by simp
  moreover have "find Pr (?A @ nodes x @ ?B) = find Pr (?A @ ?B)"
    using x by (simp add: find_append split: option.split)
  ultimately show ?thesis using Some by (simp add: placeBefore_def)
qed

lemma find_without:
  "(\<And>c. c \<in> set cs \<Longrightarrow> nid c = m \<Longrightarrow> find Pr (nodes c) = None) \<Longrightarrow>
   find Pr (concat (map nodes (filter (\<lambda>c. nid c \<noteq> m) cs))) = find Pr (concat (map nodes cs))"
proof (induction cs)
  case Nil
  then show ?case by simp
next
  case (Cons c cs)
  then show ?case by (simp add: find_append split: option.split)
qed

lemma lookup_updNode_children:
  "wfTree d \<Longrightarrow> k \<noteq> q \<Longrightarrow>
   (\<And>n. n \<in> set (nodes d) \<Longrightarrow> nid n = q \<Longrightarrow>
      find (\<lambda>n. nid n = k) (concat (map nodes (g (childNodes n))))
        = find (\<lambda>n. nid n = k) (concat (map nodes (childNodes n)))) \<Longrightarrow>
   lookup k (updNode q (withChildren g) d) = map_option (updNode q (withChildren g)) (lookup k d)"
proof (induction d rule: descendants.induct)
  case (1 i t a b cs)
  let ?d = "Element i t a b cs"
  let ?u = "updNode q (withChildren g)"
  show ?case
  proof (cases "i = q")
    case True
    have "lookup k (?u ?d) = find (\<lambda>n. nid n = k) (concat (map nodes (g cs)))"
      using True 1(3) by (simp add: lookup_Element)
    also have "\<dots> = find (\<lambda>n. nid n = k) (concat (map nodes cs))"
      using 1(4) [of ?d] True self_in_nodes [of ?d] by simp
    also have "\<dots> = lookup k ?d" using True 1(3) by (simp add: lookup_Element)
    finally have l: "lookup k (?u ?d) = lookup k ?d" .
    show ?thesis
    proof (cases "lookup k ?d")
      case None
      then show ?thesis using l by simp
    next
      case (Some kn)
      then have "kn \<in> set (concat (map nodes cs))"
        using True 1(3) find_SomeD [of "\<lambda>n. nid n = k" "concat (map nodes cs)" kn]
        by (simp add: lookup_Element)
      then obtain c where c: "c \<in> set cs" "kn \<in> set (nodes c)" by auto
      have "q \<notin> set (nids c)" using nid_not_below [OF 1(2), of c] c(1) True by simp
      then have "q \<notin> set (nids kn)" using nids_subtree [OF c(2)] by auto
      then have "?u kn = kn" by (rule updNode_other)
      then show ?thesis using l Some by simp
    qed
  next
    case False
    show ?thesis
    proof (cases "i = k")
      case True
      then show ?thesis using False by (simp add: lookup_Element)
    next
      case nk: False
      have "find (\<lambda>n. nid n = k) (concat (map nodes (map ?u cs)))
              = map_option ?u (find (\<lambda>n. nid n = k) (concat (map nodes cs)))"
      proof (rule find_children_map)
        fix c assume c: "c \<in> set cs"
        have sub: "\<And>n. n \<in> set (nodes c) \<Longrightarrow> n \<in> set (nodes ?d)"
          using c by (auto simp: nodes_Element)
        show "lookup k (?u c) = map_option ?u (lookup k c)"
          using 1(1) [OF c wfTree_child [OF 1(2)] 1(3)] c 1(4) sub by simp
      qed
      then show ?thesis using False nk by (simp add: lookup_Element)
    qed
  qed
next
  case (2 i s e)
  then show ?case by (simp add: lookup_def nodes_def)
qed

lemma removeNode_insert:
  "nid x \<notin> set (nids d) \<Longrightarrow>
   removeNode (nid x) (updNode q (withChildren (placeBefore x r)) d) = d"
proof (induction d rule: descendants.induct)
  case (1 i t a b cs)
  have fresh: "\<forall>c \<in> set cs. nid x \<notin> set (nids c)" using 1(2) by (auto simp: nids_Element)
  then have ids: "\<forall>c \<in> set cs. nid c \<noteq> nid x" using nid_in_nids by metis
  show ?case
  proof (cases "i = q")
    case True
    have "map (removeNode (nid x)) cs = cs"
      using fresh by (simp add: map_idI removeNode_other)
    then show ?thesis using True filter_placeBefore [OF refl ids, of r] by simp
  next
    case False
    have "filter (\<lambda>c. nid c \<noteq> nid x) (map (updNode q (withChildren (placeBefore x r))) cs)
            = map (updNode q (withChildren (placeBefore x r))) cs"
      using ids by (simp add: filter_id_conv nid_updNode nid_withChildren)
    moreover have "map (removeNode (nid x) \<circ> updNode q (withChildren (placeBefore x r))) cs = cs"
      using 1(1) fresh by (simp add: map_idI)
    ultimately show ?thesis using False by simp
  qed
next
  case (2 i s e)
  then show ?case by simp
qed

lemma updNode_fix:
  "wfTree d \<Longrightarrow> pn \<in> set (nodes d) \<Longrightarrow> f pn = pn \<Longrightarrow> updNode (nid pn) f d = d"
proof (induction d rule: descendants.induct)
  case (1 i t a b cs)
  let ?d = "Element i t a b cs"
  show ?case
  proof (cases "i = nid pn")
    case True
    then have "pn = ?d" using same_nid_same_node [OF 1(2,3) self_in_nodes] by simp
    then show ?thesis using 1(4) by (simp add: updNode_root)
  next
    case False
    have "map (updNode (nid pn) f) cs = cs"
    proof (rule map_idI)
      fix c assume c: "c \<in> set cs"
      show "updNode (nid pn) f c = c"
      proof (cases "nid pn \<in> set (nids c)")
        case True
        then obtain y where y: "y \<in> set (nodes c)" "nid y = nid pn" by (auto simp: nids_def)
        have "y \<in> set (nodes ?d)" using y(1) c by (auto simp: nodes_Element)
        then have "y = pn" using same_nid_same_node [OF 1(2) _ 1(3)] y(2) by simp
        then show ?thesis using 1(1) [OF c wfTree_child [OF 1(2)]] c y(1) 1(4) by simp
      next
        case False
        then show ?thesis by (rule updNode_other)
      qed
    qed
    then show ?thesis using False by simp
  qed
next
  case (2 i s e)
  then show ?case by (auto simp: nodes_Text)
qed

lemma placeBefore_Cons:
  "r \<noteq> Some (nid c) \<Longrightarrow> placeBefore x r (c # cs) = c # placeBefore x r cs"
  by (cases r) (simp_all add: placeBefore_def)

lemma after_in_tail: "after k cs = Some n \<Longrightarrow> n \<in> set (tl cs)"
  by (induction k cs rule: after.induct) (auto split: if_splits)

lemma put_back:
  "distinct (map nid cs) \<Longrightarrow> x \<in> set cs \<Longrightarrow>
   placeBefore x (map_option nid (after (nid x) cs)) (filter (\<lambda>c. nid c \<noteq> nid x) cs) = cs"
proof (induction cs)
  case Nil
  then show ?case by simp
next
  case (Cons c cs)
  show ?case
  proof (cases "nid c = nid x")
    case True
    then have cx: "c = x" using Cons(2,3) by (auto simp: image_iff)
    have rest: "filter (\<lambda>c. nid c \<noteq> nid x) cs = cs"
      using Cons(2) True by (auto simp: filter_id_conv image_iff)
    show ?thesis
    proof (cases cs)
      case Nil
      then show ?thesis using cx by (simp add: placeBefore_def)
    next
      case (Cons c' cs')
      then show ?thesis using cx rest by (simp add: placeBefore_def)
    qed
  next
    case False
    then have x: "x \<in> set cs" using Cons(3) by auto
    then obtain c' cs' where cs: "cs = c' # cs'" by (cases cs) auto
    have a: "after (nid x) (c # cs) = after (nid x) cs" using False cs by simp
    have "map_option nid (after (nid x) cs) \<noteq> Some (nid c)"
    proof
      assume "map_option nid (after (nid x) cs) = Some (nid c)"
      then obtain n where n: "after (nid x) cs = Some n" "nid n = nid c" by auto
      then have "n \<in> set cs" using after_in_tail [OF n(1)] cs by (auto dest: list.set_sel(2))
      then show False using Cons(2) n(2) by (auto simp: image_iff)
    qed
    then show ?thesis using Cons(1) Cons(2) x False a by (simp add: placeBefore_Cons)
  qed
qed


lemma after_not_self:
  "distinct (map nid cs) \<Longrightarrow> after k cs = Some n \<Longrightarrow> nid n \<noteq> k"
  by (induction k cs rule: after.induct) (auto split: if_splits)

lemma child_is_descendant:
  assumes pn: "pn \<in> set (nodes d)" and x: "xn \<in> set (childNodes pn)"
  shows "xn \<in> set (descendants d)"
proof -
  have xp: "xn \<in> set (descendants pn)" using x by (rule child_in_descendants)
  then have "xn \<in> set (nodes pn)" by (simp add: nodes_def)
  then have "xn \<in> set (nodes d)" using nodes_trans pn by blast
  moreover have "xn \<noteq> d" using size_descendants [OF xp] size_nodes [OF pn] by auto
  ultimately show ?thesis by (simp add: nodes_def)
qed

lemma insertNode_back:
  assumes wf: "wfTree d" and pn: "pn \<in> set (nodes d)" and x: "xn \<in> set (childNodes pn)"
    and rem: "removeNode (nid xn) dm = removeNode (nid xn) d"
    and lk: "lookup (nid pn) dm = Some pm" and el: "isElement pm"
    and par: "\<And>s. after (nid xn) (childNodes pn) = Some s \<Longrightarrow>
                map_option nid (parentNode (nid s) dm) = Some (nid pn)"
    and root: "nid pn \<noteq> nid dm"
  shows "insertNode (nid pn) xn (map_option nid (after (nid xn) (childNodes pn))) dm = Normal d"
proof -
  let ?r = "map_option nid (after (nid xn) (childNodes pn))"
  let ?out = "filter (\<lambda>c. nid c \<noteq> nid xn)"
  have dist: "distinct (map nid (childNodes pn))"
    using distinct_child_nids [OF wfTree_subtree [OF pn wf]] .
  have nc: "\<not> contains xn (nid pn)"
    using child_not_contains_parent [OF wf pn child_in_descendants [OF x]] .
  have r: "(?r = Some (nid xn)) = False" using after_not_self [OF dist] by auto
  have chk: "(case ?r of None \<Rightarrow> False
                | Some c \<Rightarrow> map_option nid (parentNode c dm) \<noteq> Some (nid pn)) = False"
    using par by (cases "after (nid xn) (childNodes pn)") simp_all
  have "withChildren (placeBefore xn ?r \<circ> ?out) pn = pn"
    using put_back [OF dist x] x by (cases pn) simp_all
  then have "updNode (nid pn) (withChildren (placeBefore xn ?r \<circ> ?out)) d = d"
    using updNode_fix [OF wf pn] by simp
  moreover have "withChildren (placeBefore xn ?r) \<circ> withChildren ?out
                   = withChildren (placeBefore xn ?r \<circ> ?out)"
    by (rule ext) (simp add: withChildren_comp)
  ultimately have "updNode (nid pn) (withChildren (placeBefore xn ?r))
               (updNode (nid pn) (withChildren ?out) d) = d"
    by (simp add: updNode_updNode nid_withChildren)
  then have fin: "updNode (nid pn) (withChildren (placeBefore xn ?r)) (removeNode (nid xn) dm) = d"
    using removeNode_child [OF wf pn x] rem by simp
  show ?thesis
    by (simp only: insertNode_def lk option.case el nc r chk root simp_thms if_False Let_def fin)
qed

lemma mset_placeBefore:
  "mset (concat (map f (placeBefore x r cs))) = mset (f x) + mset (concat (map f cs))"
proof (cases r)
  case None
  then show ?thesis by (simp add: placeBefore_def)
next
  case (Some c)
  have "mset (concat (map f cs))
          = mset (concat (map f (takeWhile (\<lambda>n. nid n \<noteq> c) cs @ dropWhile (\<lambda>n. nid n \<noteq> c) cs)))"
    by simp
  then show ?thesis using Some by (simp add: placeBefore_def del: takeWhile_dropWhile_id)
qed

lemma set_placeBefore: "set (placeBefore x r cs) = insert x (set cs)"
proof (cases r)
  case None
  then show ?thesis by (simp add: placeBefore_def)
next
  case (Some c)
  have "set cs = set (takeWhile (\<lambda>n. nid n \<noteq> c) cs @ dropWhile (\<lambda>n. nid n \<noteq> c) cs)" by simp
  then show ?thesis using Some by (auto simp add: placeBefore_def simp del: takeWhile_dropWhile_id)
qed

lemma isElement_updNode:
  "(\<And>n. isElement (f n) = isElement n) \<Longrightarrow> isElement (updNode k f d) = isElement d"
  by (cases d) simp_all

lemma isElement_withChildren: "isElement (withChildren g n) = isElement n"
  by (cases n) simp_all

lemma child_nids_below:
  "nid n \<noteq> j \<Longrightarrow> (\<And>n. nid (f n) = nid n) \<Longrightarrow>
   map nid (childNodes (updNode j f n)) = map nid (childNodes n)"
  by (cases n) (simp_all add: nid_updNode comp_def)

lemma shallow_removeNode:
  "y \<in> set (nodes (removeNode k d)) \<Longrightarrow> \<exists>y' \<in> set (nodes d). shallow y = shallow y'"
proof (induction d rule: descendants.induct)
  case (1 i t a b cs)
  let ?d = "Element i t a b cs"
  show ?case
  proof (cases "y = removeNode k ?d")
    case True
    then have "shallow y = shallow ?d" by simp
    then show ?thesis using self_in_nodes [of ?d] by blast
  next
    case False
    then obtain c where c: "c \<in> set cs" "y \<in> set (nodes (removeNode k c))"
      using 1(2) by (auto simp: nodes_Element)
    then obtain y' where "y' \<in> set (nodes c)" "shallow y = shallow y'" using 1(1) by blast
    then show ?thesis using c(1) by (auto simp: nodes_Element)
  qed
next
  case (2 i s e)
  then show ?case by auto
qed

lemma shallow_insert:
  "y \<in> set (nodes (updNode q (withChildren (placeBefore x r)) d)) \<Longrightarrow>
   \<exists>y' \<in> set (nodes d) \<union> set (nodes x). shallow y = shallow y'"
proof (induction d rule: descendants.induct)
  case (1 i t a b cs)
  let ?d = "Element i t a b cs"
  let ?u = "updNode q (withChildren (placeBefore x r))"
  show ?case
  proof (cases "y = ?u ?d")
    case True
    then have "shallow y = shallow ?d" by simp
    then show ?thesis using self_in_nodes [of ?d] by blast
  next
    case False
    show ?thesis
    proof (cases "i = q")
      case True
      then obtain c where c: "c \<in> set (placeBefore x r cs)" "y \<in> set (nodes c)"
        using 1(2) False by (auto simp: nodes_Element)
      then have "y \<in> set (nodes x) \<or> (\<exists>c \<in> set cs. y \<in> set (nodes c))"
        by (auto simp: set_placeBefore)
      then have "y \<in> set (nodes ?d) \<union> set (nodes x)" by (auto simp: nodes_Element)
      then show ?thesis by blast
    next
      case nq: False
      then obtain c where c: "c \<in> set cs" "y \<in> set (nodes (?u c))"
        using 1(2) False by (auto simp: nodes_Element)
      then obtain y' where "y' \<in> set (nodes c) \<union> set (nodes x)" "shallow y = shallow y'"
        using 1(1) by blast
      then show ?thesis using c(1) by (auto simp: nodes_Element)
    qed
  qed
next
  case (2 i s e)
  then show ?case by (auto split: if_splits)
qed


subsection \<open>The page after a node has moved\<close>

lemma moved_facts:
  assumes wf: "wfTree d" and pn: "pn \<in> set (nodes d)" and x: "xn \<in> set (childNodes pn)"
    and nc: "q \<notin> set (nids xn)" and lq: "lookup q d = Some qn" and el: "isElement qn"
    and dm: "dm = updNode q (withChildren (placeBefore xn r)) (removeNode (nid xn) d)"
  shows "wfTree dm"
    and "removeNode (nid xn) dm = removeNode (nid xn) d"
    and "lookup (nid xn) dm = Some xn"
    and "\<exists>pm. lookup (nid pn) dm = Some pm \<and> isElement pm \<and>
           (\<forall>s \<in> set (childNodes pn). nid s \<noteq> nid xn \<longrightarrow> nid s \<in> nid ` set (childNodes pm))"
    and "shallow ` set (nodes dm) \<subseteq> shallow ` set (nodes d)"
    and "nid dm = nid d"
proof -
  let ?out = "filter (\<lambda>c. nid c \<noteq> nid xn)"
  let ?ins = "withChildren (placeBefore xn r)"
  let ?d0 = "removeNode (nid xn) d"
  have xd: "xn \<in> set (descendants d)" by (rule child_is_descendant [OF pn x])
  have xnodes: "xn \<in> set (nodes d)" using xd by (simp add: nodes_def)
  have d0: "?d0 = updNode (nid pn) (withChildren ?out) d" by (rule removeNode_child [OF wf pn x])
  have wf0: "wfTree ?d0" by (rule wfTree_removeNode [OF wf])
  have ids0: "mset (nids ?d0) + mset (nids xn) = mset (nids d)" by (rule nids_removeNode [OF wf xd])
  have "mset (nids ?d0 @ nids xn) = mset (nids d)" using ids0 by simp
  then have "distinct (nids ?d0 @ nids xn)"
    using wf mset_eq_imp_distinct_iff unfolding wfTree_def by blast
  then have fresh: "nid xn \<notin> set (nids ?d0)" using nid_in_nids [of xn] by auto
  have pel: "isElement pn" using x by (cases pn) simp_all
  have lp: "lookup (nid pn) d = Some pn" by (rule lookup_wf [OF wf pn])
  have lp0: "lookup (nid pn) ?d0 = Some (withChildren ?out pn)"
    unfolding d0 using lp by (simp add: lookup_updNode_same nid_withChildren)
  have only: "\<And>n c. n \<in> set (nodes d) \<Longrightarrow> nid n = nid pn \<Longrightarrow> c \<in> set (childNodes n) \<Longrightarrow>
                 nid c = nid xn \<Longrightarrow> c = xn"
  proof -
    fix n c assume n: "n \<in> set (nodes d)" "nid n = nid pn" "c \<in> set (childNodes n)" "nid c = nid xn"
    have "c \<in> set (nodes d)" using child_is_descendant [OF n(1,3)] by (simp add: nodes_def)
    then show "c = xn" using same_nid_same_node [OF wf _ xnodes] n(4) by simp
  qed
  have q0: "\<exists>q0. lookup q ?d0 = Some q0 \<and> isElement q0"
  proof (cases "q = nid pn")
    case True
    then show ?thesis using lp0 pel by (simp add: isElement_withChildren)
  next
    case False
    have "lookup q ?d0 = map_option (updNode (nid pn) (withChildren ?out)) (lookup q d)"
      unfolding d0
    proof (rule lookup_updNode_children [OF wf False])
      fix n assume n: "n \<in> set (nodes d)" "nid n = nid pn"
      show "find (\<lambda>n. nid n = q) (concat (map nodes (?out (childNodes n))))
              = find (\<lambda>n. nid n = q) (concat (map nodes (childNodes n)))"
      proof (rule find_without)
        fix c assume c: "c \<in> set (childNodes n)" "nid c = nid xn"
        have "c = xn" by (rule only [OF n c])
        then show "find (\<lambda>n. nid n = q) (nodes c) = None"
          using nc by (auto simp: find_None_conv nids_def)
      qed
    qed
    then show ?thesis using lq el by (simp add: isElement_updNode isElement_withChildren)
  qed
  then obtain q0 where q0: "lookup q ?d0 = Some q0" "isElement q0" by blast
  have q0n: "q0 \<in> set (nodes ?d0)" "nid q0 = q" using lookup_SomeD [OF q0(1)] by simp_all
  have "mset (concat (map nids (placeBefore xn r (childNodes q0)))) + {#}
          = mset (concat (map nids (childNodes q0))) + mset (nids xn)"
    by (simp add: mset_placeBefore)
  then have "mset (nids (updNode (nid q0) ?ins ?d0)) + {#} = mset (nids ?d0) + mset (nids xn)"
    by (rule nids_change_children [OF wf0 q0n(1) q0(2)])
  then have ids: "mset (nids dm) = mset (nids d)" using ids0 q0n(2) dm by simp
  show wfm: "wfTree dm" using ids wf mset_eq_imp_distinct_iff unfolding wfTree_def by blast
  show "removeNode (nid xn) dm = removeNode (nid xn) d"
    unfolding dm by (rule removeNode_insert [OF fresh])
  have lqm: "lookup q dm = Some (?ins q0)"
    unfolding dm using q0(1) by (simp add: lookup_updNode_same nid_withChildren)
  have "xn \<in> set (childNodes (?ins q0))"
    using q0(2) by (simp add: childNodes_withChildren set_placeBefore)
  then have "xn \<in> set (descendants dm)"
    using child_is_descendant lookup_SomeD [OF lqm] by blast
  then have "xn \<in> set (nodes dm)" by (simp add: nodes_def)
  then show "lookup (nid xn) dm = Some xn" by (rule lookup_wf [OF wfm])
  let ?p0 = "withChildren ?out pn"
  have kids0: "childNodes ?p0 = ?out (childNodes pn)" using pel by (simp add: childNodes_withChildren)
  show "\<exists>pm. lookup (nid pn) dm = Some pm \<and> isElement pm \<and>
           (\<forall>s \<in> set (childNodes pn). nid s \<noteq> nid xn \<longrightarrow> nid s \<in> nid ` set (childNodes pm))"
  proof (cases "nid pn = q")
    case True
    then have "lookup (nid pn) dm = Some (?ins ?p0)" using lqm q0(1) lp0 by simp
    moreover have "childNodes (?ins ?p0) = placeBefore xn r (?out (childNodes pn))"
      using pel kids0 by (simp add: childNodes_withChildren isElement_withChildren)
    ultimately show ?thesis
      using pel by (auto simp: isElement_withChildren set_placeBefore)
  next
    case False
    have "lookup (nid pn) dm = map_option (updNode q ?ins) (lookup (nid pn) ?d0)"
      unfolding dm
    proof (rule lookup_updNode_children [OF wf0 False])
      fix n
      have "nid pn \<notin> set (nids xn)"
        using nid_not_below [OF wfTree_subtree [OF pn wf] x] .
      then have "find (\<lambda>n. nid n = nid pn) (nodes xn) = None"
        using lookup_None_iff [of "nid pn" xn] by (simp add: lookup_def)
      then show "find (\<lambda>n. nid n = nid pn) (concat (map nodes (placeBefore xn r (childNodes n))))
              = find (\<lambda>n. nid n = nid pn) (concat (map nodes (childNodes n)))"
        by (rule find_placeBefore)
    qed
    then have l: "lookup (nid pn) dm = Some (updNode q ?ins ?p0)" using lp0 by simp
    have "map nid (childNodes (updNode q ?ins ?p0)) = map nid (childNodes ?p0)"
      using False by (intro child_nids_below) (simp_all add: nid_withChildren)
    then have "nid ` set (childNodes (updNode q ?ins ?p0)) = nid ` set (?out (childNodes pn))"
      using kids0 by (metis list.set_map)
    then show ?thesis
      using l pel by (auto simp: isElement_updNode isElement_withChildren)
  qed
  show "shallow ` set (nodes dm) \<subseteq> shallow ` set (nodes d)"
  proof
    fix z assume "z \<in> shallow ` set (nodes dm)"
    then obtain y where y: "y \<in> set (nodes dm)" "z = shallow y" by blast
    then obtain y' where y': "y' \<in> set (nodes ?d0) \<union> set (nodes xn)" "shallow y = shallow y'"
      using shallow_insert [of y q xn r ?d0] dm by blast
    show "z \<in> shallow ` set (nodes d)"
    proof (cases "y' \<in> set (nodes xn)")
      case True
      then have "y' \<in> set (nodes d)" using nodes_trans xnodes by blast
      then show ?thesis using y(2) y'(2) by auto
    next
      case False
      then obtain y'' where "y'' \<in> set (nodes d)" "shallow y' = shallow y''"
        using y'(1) shallow_removeNode [of y' "nid xn" d] by blast
      then show ?thesis using y(2) y'(2) by auto
    qed
  qed
  show "nid dm = nid d" unfolding dm by (simp add: nid_updNode nid_withChildren nid_removeNode)
qed


subsection \<open>Queries on a page of distinct nodes\<close>

lemma find_in_page:
  assumes wf: "wfTree d" and x: "x \<in> set (nodes d)" and nr: "nid x \<noteq> nid d" and px: "Pr x"
    and u: "\<And>y. y \<in> set (nodes d) \<Longrightarrow> Pr y \<Longrightarrow> nid y = nid x"
  shows "find Pr (descendants d) = Some x"
proof (rule find_unique)
  show "x \<in> set (descendants d)" using x nr by (auto simp: nodes_def)
  show "Pr x" by (rule px)
  fix y assume y: "y \<in> set (descendants d)" "Pr y"
  then have yn: "y \<in> set (nodes d)" by (simp add: nodes_def)
  then show "y = x" using same_nid_same_node [OF wf yn x] u [OF yn y(2)] by simp
qed

lemma shallow_eq_D:
  "shallow y = shallow y' \<Longrightarrow>
   nid y = nid y' \<and> isElement y = isElement y' \<and> getAttribute y a = getAttribute y' a"
  by (cases y; cases y') (simp_all add: getAttribute_def)

lemma counterpart:
  assumes sh: "shallow ` set (nodes dm) \<subseteq> shallow ` set (nodes d)" and wf: "wfTree d"
    and y: "y \<in> set (nodes dm)" and n: "n \<in> set (nodes d)" and e: "nid y = nid n"
  shows "shallow y = shallow n"
proof -
  obtain y' where y': "y' \<in> set (nodes d)" "shallow y = shallow y'" using sh y by blast
  then have "nid y' = nid n" using shallow_eq_D [of y y'] e by simp
  then have "y' = n" by (rule same_nid_same_node [OF wf y'(1) n])
  then show ?thesis using y'(2) by simp
qed

lemma unique_transfer:
  assumes sh: "shallow ` set (nodes dm) \<subseteq> shallow ` set (nodes d)"
    and pr: "\<And>y y'. shallow y = shallow y' \<Longrightarrow> Pr y = Pr y'"
    and u: "\<forall>y \<in> set (nodes d). Pr y \<longrightarrow> nid y = k"
    and y: "y \<in> set (nodes dm)" and py: "Pr y"
  shows "nid y = k"
proof -
  obtain y' where y': "y' \<in> set (nodes d)" "shallow y = shallow y'" using sh y by blast
  then have "Pr y'" using pr [OF y'(2)] py by simp
  then have "nid y' = k" using u y'(1) by blast
  then show ?thesis using shallow_eq_D [OF y'(2)] by simp
qed

subsection \<open>The restore puts the merge box back\<close>

lemma restore_mid:
  assumes wf': "wfTree d'" and wfm: "wfTree dm"
    and P': "P' \<in> set (nodes d')" and m'P: "m' \<in> set (childNodes P')"
    and rem: "removeNode (nid m') dm = removeNode (nid m') d'"
    and lm: "lookup (nid m') dm = Some m'"
    and lp: "lookup (nid P') dm = Some pm" "isElement pm"
      "\<forall>s \<in> set (childNodes P'). nid s \<noteq> nid m' \<longrightarrow> nid s \<in> nid ` set (childNodes pm)"
    and sh: "shallow ` set (nodes dm) \<subseteq> shallow ` set (nodes d')"
    and root: "nid dm = nid d'" "nid P' \<noteq> nid d'"
    and mEl: "isElement m'" and moved: "getAttribute m' ''data-moved-to-top'' = Some ''true''"
    and pidv: "dataValue m' ''data-original-parent-id'' = pid" "pid \<noteq> []"
      "getAttribute P' ''id'' = Some pid"
    and U1: "\<forall>y \<in> set (nodes d'). isElement y \<and> getAttribute y ''data-moved-to-top'' = Some ''true''
               \<longrightarrow> nid y = nid m'"
    and U2: "\<forall>y \<in> set (nodes d'). isElement y \<and> getAttribute y ''id'' = Some pid \<longrightarrow> nid y = nid P'"
    and sidv: "dataValue m' ''data-original-next-sibling-id'' = sid"
    and sibN: "after (nid m') (childNodes P') = None \<Longrightarrow> sid = []"
    and sibS: "\<And>S'. after (nid m') (childNodes P') = Some S' \<Longrightarrow>
                 isElement S' \<and> sid \<noteq> [] \<and> getAttribute S' ''id'' = Some sid \<and>
                 (\<forall>y \<in> set (nodes d'). isElement y \<and> getAttribute y ''id'' = Some sid
                    \<longrightarrow> nid y = nid S')"
  shows "restoreMergeStatusPosition (w\<lparr>doc := dm\<rparr>) = Returned (w\<lparr>doc := cleanUp (nid m') d'\<rparr>)"
proof -
  let ?r = "map_option nid (after (nid m') (childNodes P'))"
  have dist: "distinct (map nid (childNodes P'))"
    using distinct_child_nids [OF wfTree_subtree [OF P' wf']] .
  have m'd: "m' \<in> set (nodes d')" using child_is_descendant [OF P' m'P] by (simp add: nodes_def)
  have mm: "m' \<in> set (nodes dm)" "pm \<in> set (nodes dm)" "nid pm = nid P'"
    using lookup_SomeD [OF lm] lookup_SomeD [OF lp(1)] by simp_all
  have mroot: "nid m' \<noteq> nid dm"
    using descendant_not_root [OF wf' child_is_descendant [OF P' m'P]] root(1) by simp
  have q1: "querySelector [[AttrEq ''data-moved-to-top'' ''true'']] dm = Some m'"
    unfolding querySelector_def
  proof (rule find_in_page [OF wfm mm(1) mroot])
    show "matches [[AttrEq ''data-moved-to-top'' ''true'']] m'"
      using mEl moved by (simp add: matches_def)
    fix y assume y: "y \<in> set (nodes dm)" "matches [[AttrEq ''data-moved-to-top'' ''true'']] y"
    show "nid y = nid m'"
    proof (rule unique_transfer [OF sh _ U1 y(1)])
      fix a b :: node assume "shallow a = shallow b"
      then show "(isElement a \<and> getAttribute a ''data-moved-to-top'' = Some ''true'')
                 = (isElement b \<and> getAttribute b ''data-moved-to-top'' = Some ''true'')"
        using shallow_eq_D [of a b] by simp
    next
      show "isElement y \<and> getAttribute y ''data-moved-to-top'' = Some ''true''"
        using y(2) by (simp add: matches_def)
    qed
  qed
  have pmP: "shallow pm = shallow P'"
    by (rule counterpart [OF sh wf' mm(2) P' mm(3)])
  have q2: "getElementById pid dm = Some pm"
    unfolding getElementById_def
  proof (rule find_in_page [OF wfm mm(2)])
    show "nid pm \<noteq> nid dm" using mm(3) root by simp
    show "isElement pm \<and> pid \<noteq> [] \<and> getAttribute pm ''id'' = Some pid"
      using lp(2) pidv(2,3) shallow_eq_D [OF pmP] by simp
    fix y assume y: "y \<in> set (nodes dm)"
      "isElement y \<and> pid \<noteq> [] \<and> getAttribute y ''id'' = Some pid"
    have "nid y = nid P'"
    proof (rule unique_transfer [OF sh _ U2 y(1)])
      fix a b :: node assume "shallow a = shallow b"
      then show "(isElement a \<and> getAttribute a ''id'' = Some pid)
                 = (isElement b \<and> getAttribute b ''id'' = Some pid)"
        using shallow_eq_D [of a b] by simp
    next
      show "isElement y \<and> getAttribute y ''id'' = Some pid" using y(2) by simp
    qed
    then show "nid y = nid pm" using mm(3) by simp
  qed
  have t: "restoreTarget m' dm = Some pm"
    by (simp add: restoreTarget_def pidv(1,2) q2)
  have kid: "\<And>S'. after (nid m') (childNodes P') = Some S' \<Longrightarrow>
               \<exists>sm \<in> set (childNodes pm). nid sm = nid S' \<and> S' \<in> set (nodes d')"
  proof -
    fix S' assume a: "after (nid m') (childNodes P') = Some S'"
    have "S' \<in> set (tl (childNodes P'))" by (rule after_in_tail [OF a])
    then have c: "S' \<in> set (childNodes P')" by (metis list.sel(2) list.set_sel(2))
    have "nid S' \<noteq> nid m'" by (rule after_not_self [OF dist a])
    then have "nid S' \<in> nid ` set (childNodes pm)" using lp(3) c by blast
    moreover have "S' \<in> set (nodes d')" using child_is_descendant [OF P' c] by (simp add: nodes_def)
    ultimately show "\<exists>sm \<in> set (childNodes pm). nid sm = nid S' \<and> S' \<in> set (nodes d')" by auto
  qed
  have q3: "map_option nid (if sid \<noteq> [] then getElementById sid dm else None) = ?r"
  proof (cases "after (nid m') (childNodes P')")
    case None
    then show ?thesis using sibN by simp
  next
    case (Some S')
    obtain sm where sm: "sm \<in> set (childNodes pm)" "nid sm = nid S'" "S' \<in> set (nodes d')"
      using kid [OF Some] by blast
    have smd: "sm \<in> set (descendants dm)" by (rule child_is_descendant [OF mm(2) sm(1)])
    then have smn: "sm \<in> set (nodes dm)" by (simp add: nodes_def)
    have smS: "shallow sm = shallow S'" by (rule counterpart [OF sh wf' smn sm(3) sm(2)])
    have "getElementById sid dm = Some sm"
      unfolding getElementById_def
    proof (rule find_in_page [OF wfm smn])
      show "nid sm \<noteq> nid dm" by (rule descendant_not_root [OF wfm smd])
      show "isElement sm \<and> sid \<noteq> [] \<and> getAttribute sm ''id'' = Some sid"
        using sibS [OF Some] shallow_eq_D [OF smS] by simp
      fix y assume y: "y \<in> set (nodes dm)"
        "isElement y \<and> sid \<noteq> [] \<and> getAttribute y ''id'' = Some sid"
      have "nid y = nid S'"
      proof (rule unique_transfer [OF sh _ _ y(1)])
        fix a b :: node assume "shallow a = shallow b"
        then show "(isElement a \<and> getAttribute a ''id'' = Some sid)
                   = (isElement b \<and> getAttribute b ''id'' = Some sid)"
          using shallow_eq_D [of a b] by simp
      next
        show "\<forall>y \<in> set (nodes d'). isElement y \<and> getAttribute y ''id'' = Some sid \<longrightarrow> nid y = nid S'"
          using sibS [OF Some] by blast
      next
        show "isElement y \<and> getAttribute y ''id'' = Some sid" using y(2) by simp
      qed
      then show "nid y = nid sm" using sm(2) by simp
    qed
    then show ?thesis using Some sibS [OF Some] sm(2) by simp
  qed
  have par: "\<And>s. after (nid m') (childNodes P') = Some s \<Longrightarrow>
               map_option nid (parentNode (nid s) dm) = Some (nid P')"
  proof -
    fix s assume a: "after (nid m') (childNodes P') = Some s"
    obtain sm where sm: "sm \<in> set (childNodes pm)" "nid sm = nid s" using kid [OF a] by blast
    have "parentNode (nid sm) dm = Some pm" by (rule parentNode_wf [OF wfm mm(2) sm(1)])
    then show "map_option nid (parentNode (nid s) dm) = Some (nid P')" using sm(2) mm(3) by simp
  qed
  have ins: "insertNode (nid P') m' ?r dm = Normal d'"
    using insertNode_back [OF wf' P' m'P rem lp(1,2) par] root by simp
  have ib: "insertBefore (nid pm) (nid m')
              (map_option nid (if sid \<noteq> [] then getElementById sid dm else None)) dm = Normal d'"
    unfolding q3 by (simp add: insertBefore_def lm mm(3) ins)
  show ?thesis
  proof (cases "sid = []")
    case True
    then have "insertBefore (nid pm) (nid m') None dm = Normal d'" using ib by simp
    then show ?thesis
      unfolding restoreMergeStatusPosition_def by (simp add: q1 t sidv True Let_def)
  next
    case False
    then have "insertBefore (nid pm) (nid m') (map_option nid (getElementById sid dm)) dm
                 = Normal d'"
      using ib by simp
    then show ?thesis
      unfolding restoreMergeStatusPosition_def by (simp add: q1 t sidv False Let_def)
  qed
qed


subsection \<open>Attribute changes on a page\<close>

lemma getAttribute_updNode:
  "getAttribute (updNode k f y) a = (if nid y = k then getAttribute (f y) a else getAttribute y a)"
  by (cases y) (simp_all add: getAttribute_def)

lemma isElement_updNode_if:
  "isElement (updNode k f y) = (if nid y = k then isElement (f y) else isElement y)"
  by (cases y) simp_all

lemma getAttribute_setAttr:
  "getAttribute (setAttr a' v n) a = (if isElement n \<and> a = a' then Some v else getAttribute n a)"
  by (cases n) (simp_all add: getAttribute_def update_conv')

lemma getAttribute_setId:
  "getAttribute (setId v n) a = (if isElement n \<and> a = ''id'' then Some v else getAttribute n a)"
  by (cases n) (simp_all add: getAttribute_def update_conv')

lemma getAttribute_delAttr:
  "getAttribute (delAttr a' n) a = (if a = a' then None else getAttribute n a)"
  by (cases n) (simp_all add: getAttribute_def delete_conv')

lemma isElement_setAttr: "isElement (setAttr a v n) = isElement n"
  by (cases n) simp_all

lemma isElement_setId: "isElement (setId v n) = isElement n"
  by (cases n) simp_all

lemma nid_setId: "nid (setId v n) = nid n"
  by (cases n) simp_all

lemma childNodes_setId: "childNodes (setId v n) = childNodes n"
  by (cases n) simp_all

lemma nid_delAttr: "nid (delAttr a n) = nid n"
  by (cases n) simp_all

lemma childNodes_delAttr: "childNodes (delAttr a n) = childNodes n"
  by (cases n) simp_all

lemma childNodes_updNode_other:
  "nid n \<noteq> k \<Longrightarrow> childNodes (updNode k f n) = map (updNode k f) (childNodes n)"
  by (cases n) simp_all

lemma after_map:
  "(\<And>c. nid (F c) = nid c) \<Longrightarrow> after k (map F cs) = map_option F (after k cs)"
  by (induction k cs rule: after.induct) simp_all

lemma attr_step:
  assumes a: "\<And>n. nid (f n) = nid n" and c: "\<And>n. childNodes (f n) = childNodes n"
    and wf: "wfTree d" and P: "P \<in> set (nodes d)" and M: "M \<in> set (childNodes P)"
    and k: "nid P \<noteq> k"
  shows "wfTree (updNode k f d)"
    and "nodes (updNode k f d) = map (updNode k f) (nodes d)"
    and "updNode k f P \<in> set (nodes (updNode k f d))"
    and "updNode k f M \<in> set (childNodes (updNode k f P))"
    and "after j (childNodes (updNode k f P)) = map_option (updNode k f) (after j (childNodes P))"
    and "nid (updNode k f y) = nid y"
proof -
  show "wfTree (updNode k f d)" using wf by (simp add: wfTree_updNode a c)
  show n: "nodes (updNode k f d) = map (updNode k f) (nodes d)"
    by (rule nodes_updNode [of f, OF a c wf])
  show "updNode k f P \<in> set (nodes (updNode k f d))" using P by (simp add: n)
  show "updNode k f M \<in> set (childNodes (updNode k f P))"
    using M k by (simp add: childNodes_updNode_other)
  show "nid (updNode k f y) = nid y" by (simp add: nid_updNode a)
  show "after j (childNodes (updNode k f P)) = map_option (updNode k f) (after j (childNodes P))"
    using k by (simp add: childNodes_updNode_other after_map nid_updNode a)
qed

lemma findMergeBox_D:
  assumes "findMergeBox d = Some M"
  shows "M \<in> set (descendants d) \<and> isElement M"
proof -
  have fq: "\<And>sels n. firstQuery sels d = Some n \<Longrightarrow> n \<in> set (descendants d) \<and> isElement n"
  proof -
    fix sels n show "firstQuery sels d = Some n \<Longrightarrow> n \<in> set (descendants d) \<and> isElement n"
    proof (induction sels)
      case Nil
      then show ?case by simp
    next
      case (Cons sel sels)
      then show ?case
        using querySelector_D [of sel d n]
        by (cases "querySelector sel d") (auto simp: matches_def)
    qed
  qed
  have cl: "\<And>sel k n. closest sel k d = Some n \<Longrightarrow> n \<in> set (descendants d) \<and> isElement n"
    unfolding closest_def ancestorsOrSelf_def
    using find_SomeD by (fastforce simp: matches_def)
  show ?thesis
    using assms unfolding findMergeBox_def
    by (auto split: option.splits simp del: firstQuery.simps dest: fq cl)
qed

lemma parentNode_D:
  assumes wf: "wfTree d" and M: "M \<in> set (nodes d)" and p: "parentNode (nid M) d = Some P"
  shows "P \<in> set (nodes d) \<and> M \<in> set (childNodes P)"
proof -
  have P: "P \<in> set (nodes d)" "nid M \<in> set (map nid (childNodes P))"
    using find_SomeD [OF p [unfolded parentNode_def]] by simp_all
  then obtain c where c: "c \<in> set (childNodes P)" "nid c = nid M" by auto
  have "c \<in> set (nodes d)" using child_is_descendant [OF P(1) c(1)] by (simp add: nodes_def)
  then have "c = M" by (rule same_nid_same_node [OF wf _ M c(2)])
  then show ?thesis using P(1) c(1) by simp
qed


subsection \<open>The page after the original position has been recorded\<close>

lemma record_shape:
  fixes d :: node and F :: "node \<Rightarrow> node"
  assumes wf: "wfTree d" and P: "P \<in> set (nodes d)" and M: "M \<in> set (childNodes P)"
    and Mel: "isElement M" and root: "nid P \<noteq> nid d"
    and pid: "getAttribute P ''id'' = Some pid" "pid \<noteq> []"
    and H3: "\<forall>y \<in> set (nodes d). getAttribute y ''data-moved-to-top'' \<noteq> Some ''true''"
    and H5: "\<forall>y \<in> set (nodes d). isElement y \<and> getAttribute y ''id'' = Some pid \<longrightarrow> nid y = nid P"
    and g3: "\<And>n. nid (g3 n) = nid n" "\<And>n. childNodes (g3 n) = childNodes n"
      "\<And>n. isElement (g3 n) = isElement n"
      "\<And>n a. getAttribute (g3 n) a
          = (if mk \<and> isElement n \<and> a = ''id'' then Some sid else getAttribute n a)"
    and g4: "\<And>n. nid (g4 n) = nid n" "\<And>n. childNodes (g4 n) = childNodes n"
      "\<And>n. isElement (g4 n) = isElement n"
      "\<And>n a. getAttribute (g4 n) a
          = (if hs \<and> isElement n \<and> a = ''data-original-next-sibling-id'' then Some sid
             else getAttribute n a)"
    and k3: "k3 \<noteq> nid P"
    and hsN: "after (nid M) (childNodes P) = None \<Longrightarrow>
                \<not> hs \<and> \<not> mk \<and> sid = dataValue M ''data-original-next-sibling-id'' \<and> sid = []"
    and hsS: "\<And>S. after (nid M) (childNodes P) = Some S \<Longrightarrow>
                hs \<and> isElement S \<and> sid \<noteq> [] \<and> (mk \<longrightarrow> k3 = nid S) \<and>
                (\<not> mk \<longrightarrow> getAttribute S ''id'' = Some sid) \<and>
                (\<forall>y \<in> set (nodes d). isElement y \<and> getAttribute y ''id'' = Some sid
                   \<longrightarrow> nid y = nid S)"
    and shape: "d' = updNode (nid M) g4 (updNode k3 g3
                  (updNode (nid M) (setAttr ''data-original-parent-id'' pid)
                    (updNode (nid M) (setAttr ''data-moved-to-top'' ''true'') d)))"
    and F: "F = (\<lambda>y. updNode (nid M) g4 (updNode k3 g3
                  (updNode (nid M) (setAttr ''data-original-parent-id'' pid)
                    (updNode (nid M) (setAttr ''data-moved-to-top'' ''true'') y))))"
  shows "wfTree d'" and "nid d' = nid d"
    and "F P \<in> set (nodes d')" and "F M \<in> set (childNodes (F P))"
    and "nid (F P) = nid P" and "nid (F M) = nid M" and "nids (F M) = nids M"
    and "isElement (F M)"
    and "getAttribute (F M) ''data-moved-to-top'' = Some ''true''"
    and "dataValue (F M) ''data-original-parent-id'' = pid"
    and "getAttribute (F P) ''id'' = Some pid"
    and "\<forall>y \<in> set (nodes d'). isElement y \<and> getAttribute y ''data-moved-to-top'' = Some ''true''
         \<longrightarrow> nid y = nid (F M)"
    and "\<forall>y \<in> set (nodes d'). isElement y \<and> getAttribute y ''id'' = Some pid
         \<longrightarrow> nid y = nid (F P)"
    and "dataValue (F M) ''data-original-next-sibling-id'' = sid"
    and "after (nid (F M)) (childNodes (F P)) = None \<longrightarrow> sid = []"
    and "\<forall>S'. after (nid (F M)) (childNodes (F P)) = Some S' \<longrightarrow>
         isElement S' \<and> sid \<noteq> [] \<and> getAttribute S' ''id'' = Some sid \<and>
         (\<forall>y \<in> set (nodes d'). isElement y \<and> getAttribute y ''id'' = Some sid
            \<longrightarrow> nid y = nid S')"
    and "map_option nid (after (nid (F M)) (childNodes (F P)))
           = map_option nid (after (nid M) (childNodes P))"
proof -
  let ?m = "nid M"
  let ?g1 = "setAttr ''data-moved-to-top'' ''true''"
  let ?g2 = "setAttr ''data-original-parent-id'' pid"
  let ?u1 = "updNode ?m ?g1" and ?u2 = "updNode ?m ?g2" and ?u3 = "updNode k3 g3"
    and ?u4 = "updNode ?m g4"
  let ?F = "\<lambda>y. ?u4 (?u3 (?u2 (?u1 y)))"
  have mP: "nid P \<noteq> ?m"
    using nid_not_below [OF wfTree_subtree [OF P wf] M] nid_in_nids [of M] by auto
  have dist: "distinct (map nid (childNodes P))"
    using distinct_child_nids [OF wfTree_subtree [OF P wf]] .
  note s1 = attr_step [of ?g1, OF nid_setAttr childNodes_setAttr wf P M mP]
  note s2 = attr_step [of ?g2, OF nid_setAttr childNodes_setAttr s1(1) s1(3) s1(4)]
  have p2: "nid (?u1 P) \<noteq> ?m" "nid (?u1 P) \<noteq> k3" using mP k3 by (simp_all add: s1(6))
  note s2' = s2 [OF p2(1)]
  have p3: "nid (?u2 (?u1 P)) \<noteq> k3" "nid (?u2 (?u1 P)) \<noteq> ?m"
    using mP k3 by (simp_all add: s1(6) s2'(6))
  note s3 = attr_step [of g3, OF g3(1) g3(2) s2'(1) s2'(3) s2'(4) p3(1)]
  have p4: "nid (?u3 (?u2 (?u1 P))) \<noteq> ?m" using mP by (simp add: s1(6) s2'(6) s3(6))
  note s4 = attr_step [of g4, OF g4(1) g4(2) s3(1) s3(3) s3(4) p4]
  have nidF: "\<And>y. nid (?F y) = nid y" by (simp add: s1(6) s2'(6) s3(6) s4(6))
  have elF: "\<And>y. isElement (?F y) = isElement y"
    by (simp add: isElement_updNode g3 g4 isElement_setAttr)
  have wf': "wfTree d'" unfolding shape by (rule s4(1))
  have nodes': "nodes d' = map ?F (nodes d)"
    unfolding shape by (simp add: s4(2) s3(2) s2'(2) s1(2))
  have aft: "\<And>j. after j (childNodes (?F P)) = map_option ?F (after j (childNodes P))"
    by (simp add: s4(5) s3(5) s2'(5) s1(5) option.map_comp comp_def)
  have mk3: "mk \<Longrightarrow> k3 \<noteq> ?m"
  proof (cases "after ?m (childNodes P)")
    case None
    assume mk then show ?thesis using hsN [OF None] by simp
  next
    case (Some S)
    assume mk then show ?thesis using hsS [OF Some] after_not_self [OF dist Some] by auto
  qed
  have attr: "\<And>y a. getAttribute (?F y) a =
      (if nid y = ?m
       then (if hs \<and> isElement y \<and> a = ''data-original-next-sibling-id'' then Some sid
             else if isElement y \<and> a = ''data-original-parent-id'' then Some pid
             else if isElement y \<and> a = ''data-moved-to-top'' then Some ''true''
             else getAttribute y a)
       else if mk \<and> nid y = k3 \<and> isElement y \<and> a = ''id'' then Some sid
       else getAttribute y a)"
  proof -
    fix y a
    show "getAttribute (?F y) a =
      (if nid y = ?m
       then (if hs \<and> isElement y \<and> a = ''data-original-next-sibling-id'' then Some sid
             else if isElement y \<and> a = ''data-original-parent-id'' then Some pid
             else if isElement y \<and> a = ''data-moved-to-top'' then Some ''true''
             else getAttribute y a)
       else if mk \<and> nid y = k3 \<and> isElement y \<and> a = ''id'' then Some sid
       else getAttribute y a)"
    proof (cases "nid y = ?m")
      case True
      have "?u2 (?u1 y) = ?g2 (?g1 y)" using True by (simp add: updNode_root nid_setAttr)
      moreover have "getAttribute (?u3 (?g2 (?g1 y))) a = getAttribute (?g2 (?g1 y)) a"
        using True mk3 by (auto simp: getAttribute_updNode nid_setAttr g3(4))
      moreover have "nid (?u3 (?g2 (?g1 y))) = ?m" using True by (simp add: s3(6) nid_setAttr)
      ultimately have "getAttribute (?F y) a
          = (if hs \<and> isElement y \<and> a = ''data-original-next-sibling-id'' then Some sid
             else getAttribute (?g2 (?g1 y)) a)"
        by (simp add: getAttribute_updNode g4(4) isElement_updNode g3(3) isElement_setAttr)
      then show ?thesis using True by (simp add: getAttribute_setAttr isElement_setAttr)
    next
      case False
      have x1: "getAttribute (?F y) a
          = (if nid y = k3 then getAttribute (g3 (?u2 (?u1 y))) a
             else getAttribute (?u2 (?u1 y)) a)"
        using False by (simp add: getAttribute_updNode s1(6) s2'(6) s3(6))
      have x2: "getAttribute (?u2 (?u1 y)) a = getAttribute y a"
        using False by (simp add: getAttribute_updNode s1(6))
      have x3: "isElement (?u2 (?u1 y)) = isElement y"
        by (simp add: isElement_updNode isElement_setAttr)
      show ?thesis using False by (simp add: x1 g3(4) x2 x3)
    qed
  qed
  let ?P' = "?F P" and ?m' = "?F M"
  have b3: "?P' \<in> set (nodes d')" unfolding shape by (rule s4(3))
  have b4: "?m' \<in> set (childNodes ?P')" by (rule s4(4))
  have idsM: "nids ?m' = nids M"
    by (simp add: nids_updNode g3 g4 nid_setAttr childNodes_setAttr)
  have b6: "getAttribute ?m' ''data-moved-to-top'' = Some ''true''"
    using Mel by (simp add: attr)
  have b7: "dataValue ?m' ''data-original-parent-id'' = pid"
    using Mel by (simp add: dataValue_def attr)
  have b8: "getAttribute ?P' ''id'' = Some pid" using mP k3 pid by (simp add: attr)
  have u1: "\<forall>y \<in> set (nodes d'). isElement y \<and> getAttribute y ''data-moved-to-top'' = Some ''true''
         \<longrightarrow> nid y = nid ?m'"
    using H3 by (auto simp: nodes' nidF attr split: if_splits)
  have PS: "\<And>S. after ?m (childNodes P) = Some S \<Longrightarrow> nid S \<noteq> nid P \<and> nid S \<noteq> ?m"
  proof -
    fix S assume a: "after ?m (childNodes P) = Some S"
    have "S \<in> set (tl (childNodes P))" by (rule after_in_tail [OF a])
    then have "S \<in> set (childNodes P)" by (metis list.sel(2) list.set_sel(2))
    then have "nid P \<noteq> nid S"
      using nid_not_below [OF wfTree_subtree [OF P wf], of S] nid_in_nids [of S] by auto
    then show "nid S \<noteq> nid P \<and> nid S \<noteq> ?m" using after_not_self [OF dist a] by auto
  qed
  have sp: "mk \<Longrightarrow> sid \<noteq> pid"
  proof
    assume mk: mk and e: "sid = pid"
    show False
    proof (cases "after ?m (childNodes P)")
      case None
      then show ?thesis using hsN mk by simp
    next
      case (Some S)
      have "isElement P" using M by (cases P) simp_all
      then have "nid P = nid S" using hsS [OF Some] P pid(1) e by blast
      then show ?thesis using PS [OF Some] by simp
    qed
  qed
  have u2: "\<forall>y \<in> set (nodes d'). isElement y \<and> getAttribute y ''id'' = Some pid \<longrightarrow> nid y = nid ?P'"
    using H5 sp by (auto simp: nodes' nidF elF attr split: if_splits)
  have b10: "dataValue ?m' ''data-original-next-sibling-id'' = sid"
  proof (cases "after ?m (childNodes P)")
    case None
    then show ?thesis using hsN [OF None] by (simp add: dataValue_def attr)
  next
    case (Some S)
    then show ?thesis using hsS [OF Some] Mel by (simp add: dataValue_def attr)
  qed
  have b11: "after (nid ?m') (childNodes ?P') = None \<longrightarrow> sid = []"
  proof
    assume "after (nid ?m') (childNodes ?P') = None"
    then have "after ?m (childNodes P) = None" by (simp add: nidF aft)
    then show "sid = []" using hsN by blast
  qed
  have b12: "\<forall>S'. after (nid ?m') (childNodes ?P') = Some S' \<longrightarrow>
         isElement S' \<and> sid \<noteq> [] \<and> getAttribute S' ''id'' = Some sid \<and>
         (\<forall>y \<in> set (nodes d'). isElement y \<and> getAttribute y ''id'' = Some sid
            \<longrightarrow> nid y = nid S')"
  proof (intro allI impI)
    fix S' assume "after (nid ?m') (childNodes ?P') = Some S'"
    then obtain S where S: "after ?m (childNodes P) = Some S" "S' = ?F S"
      by (auto simp: nidF aft)
    note h = hsS [OF S(1)]
    have a1: "getAttribute S' ''id'' = Some sid"
      using h PS [OF S(1)] by (auto simp: S(2) attr)
    have a2: "\<forall>y \<in> set (nodes d'). isElement y \<and> getAttribute y ''id'' = Some sid
            \<longrightarrow> nid y = nid S'"
      using h by (auto simp: nodes' nidF elF attr S(2) split: if_splits)
    show "isElement S' \<and> sid \<noteq> [] \<and> getAttribute S' ''id'' = Some sid \<and>
         (\<forall>y \<in> set (nodes d'). isElement y \<and> getAttribute y ''id'' = Some sid
            \<longrightarrow> nid y = nid S')"
      using h a1 a2 by (simp add: S(2) elF)
  qed
  have b13: "map_option nid (after (nid ?m') (childNodes ?P'))
               = map_option nid (after ?m (childNodes P))"
    by (simp add: nidF aft option.map_comp comp_def)
  have c: "nid d' = nid d" "nid ?P' = nid P" "nid ?m' = nid M" "isElement ?m'"
    using Mel by (simp_all add: nidF elF shape)
  show "wfTree d'" by (rule wf')
  show "nid d' = nid d" by (rule c(1))
  show "F P \<in> set (nodes d')" unfolding F by (rule b3)
  show "F M \<in> set (childNodes (F P))" unfolding F by (rule b4)
  show "nid (F P) = nid P" unfolding F by (rule c(2))
  show "nid (F M) = nid M" unfolding F by (rule c(3))
  show "nids (F M) = nids M" unfolding F by (rule idsM)
  show "isElement (F M)" unfolding F by (rule c(4))
  show "getAttribute (F M) ''data-moved-to-top'' = Some ''true''" unfolding F by (rule b6)
  show "dataValue (F M) ''data-original-parent-id'' = pid" unfolding F by (rule b7)
  show "getAttribute (F P) ''id'' = Some pid" unfolding F by (rule b8)
  show "\<forall>y \<in> set (nodes d'). isElement y \<and> getAttribute y ''data-moved-to-top'' = Some ''true''
         \<longrightarrow> nid y = nid (F M)"
    unfolding F by (rule u1)
  show "\<forall>y \<in> set (nodes d'). isElement y \<and> getAttribute y ''id'' = Some pid
         \<longrightarrow> nid y = nid (F P)"
    unfolding F by (rule u2)
  show "dataValue (F M) ''data-original-next-sibling-id'' = sid" unfolding F by (rule b10)
  show "after (nid (F M)) (childNodes (F P)) = None \<longrightarrow> sid = []" unfolding F by (rule b11)
  show "\<forall>S'. after (nid (F M)) (childNodes (F P)) = Some S' \<longrightarrow>
         isElement S' \<and> sid \<noteq> [] \<and> getAttribute S' ''id'' = Some sid \<and>
         (\<forall>y \<in> set (nodes d'). isElement y \<and> getAttribute y ''id'' = Some sid
            \<longrightarrow> nid y = nid S')"
    unfolding F by (rule b12)
  show "map_option nid (after (nid (F M)) (childNodes (F P)))
           = map_option nid (after (nid M) (childNodes P))"
    unfolding F by (rule b13)
qed


lemma position_cleanUp:
  assumes wf: "wfTree d"
  shows "map_option nid (parentNode k (cleanUp j d)) = map_option nid (parentNode k d)"
    and "map_option nid (nextSibling k (cleanUp j d)) = map_option nid (nextSibling k d)"
proof -
  let ?d1 = "updNode j (delAttr ''data-moved-to-top'') d"
  let ?d2 = "updNode j (delAttr ''data-original-parent-id'') ?d1"
  have w1: "wfTree ?d1" using wf by (simp add: wfTree_updNode nid_delAttr childNodes_delAttr)
  have w2: "wfTree ?d2" using w1 by (simp add: wfTree_updNode nid_delAttr childNodes_delAttr)
  note p1 = position_updNode [of "delAttr ''data-moved-to-top''", OF nid_delAttr childNodes_delAttr wf]
  note p2 = position_updNode [of "delAttr ''data-original-parent-id''", OF nid_delAttr childNodes_delAttr w1]
  note p3 = position_updNode [of "delAttr ''data-original-next-sibling-id''",
              OF nid_delAttr childNodes_delAttr w2]
  show "map_option nid (parentNode k (cleanUp j d)) = map_option nid (parentNode k d)"
    unfolding cleanUp_def removeAttribute_def by (simp only: p1 p2 p3)
  show "map_option nid (nextSibling k (cleanUp j d)) = map_option nid (nextSibling k d)"
    unfolding cleanUp_def removeAttribute_def by (simp only: p1 p2 p3)
qed

lemma shape_restores:
  fixes d :: node
  assumes wf: "wfTree d" and P: "P \<in> set (nodes d)" and M: "M \<in> set (childNodes P)"
    and Mel: "isElement M" and root: "nid P \<noteq> nid d"
    and pid: "getAttribute P ''id'' = Some pid" "pid \<noteq> []"
    and H3: "\<forall>y \<in> set (nodes d). getAttribute y ''data-moved-to-top'' \<noteq> Some ''true''"
    and H5: "\<forall>y \<in> set (nodes d). isElement y \<and> getAttribute y ''id'' = Some pid \<longrightarrow> nid y = nid P"
    and g3: "\<And>n. nid (g3 n) = nid n" "\<And>n. childNodes (g3 n) = childNodes n"
      "\<And>n. isElement (g3 n) = isElement n"
      "\<And>n a. getAttribute (g3 n) a
          = (if mk \<and> isElement n \<and> a = ''id'' then Some sid else getAttribute n a)"
    and g4: "\<And>n. nid (g4 n) = nid n" "\<And>n. childNodes (g4 n) = childNodes n"
      "\<And>n. isElement (g4 n) = isElement n"
      "\<And>n a. getAttribute (g4 n) a
          = (if hs \<and> isElement n \<and> a = ''data-original-next-sibling-id'' then Some sid
             else getAttribute n a)"
    and k3: "k3 \<noteq> nid P"
    and hsN: "after (nid M) (childNodes P) = None \<Longrightarrow>
                \<not> hs \<and> \<not> mk \<and> sid = dataValue M ''data-original-next-sibling-id'' \<and> sid = []"
    and hsS: "\<And>S. after (nid M) (childNodes P) = Some S \<Longrightarrow>
                hs \<and> isElement S \<and> sid \<noteq> [] \<and> (mk \<longrightarrow> k3 = nid S) \<and>
                (\<not> mk \<longrightarrow> getAttribute S ''id'' = Some sid) \<and>
                (\<forall>y \<in> set (nodes d). isElement y \<and> getAttribute y ''id'' = Some sid
                   \<longrightarrow> nid y = nid S)"
    and shape: "d' = updNode (nid M) g4 (updNode k3 g3
                  (updNode (nid M) (setAttr ''data-original-parent-id'' pid)
                    (updNode (nid M) (setAttr ''data-moved-to-top'' ''true'') d)))"
    and mid: "dm = d' \<or>
              (\<exists>q qn r x. lookup (nid M) d' = Some x \<and> lookup q d' = Some qn \<and> isElement qn \<and>
                 \<not> contains x q \<and>
                 dm = updNode q (withChildren (placeBefore x r)) (removeNode (nid x) d'))"
  shows "restoreMergeStatusPosition (w\<lparr>doc := dm\<rparr>) = Returned (w\<lparr>doc := cleanUp (nid M) d'\<rparr>)"
    and "map_option nid (parentNode (nid M) (cleanUp (nid M) d')) = Some (nid P)"
    and "map_option nid (nextSibling (nid M) (cleanUp (nid M) d'))
           = map_option nid (after (nid M) (childNodes P))"
    and "\<exists>b. lookup (nid M) d' = Some b \<and> dataValue b ''data-original-parent-id'' = pid \<and>
           (\<forall>S. after (nid M) (childNodes P) = Some S \<longrightarrow>
              (\<exists>s'. lookup (nid S) d' = Some s' \<and>
                 dataValue b ''data-original-next-sibling-id'' \<noteq> [] \<and>
                 getAttribute s' ''id'' = Some (dataValue b ''data-original-next-sibling-id'')))"
proof -
  define F where "F = (\<lambda>y. updNode (nid M) g4 (updNode k3 g3
                  (updNode (nid M) (setAttr ''data-original-parent-id'' pid)
                    (updNode (nid M) (setAttr ''data-moved-to-top'' ''true'') y))))"
  define P' where "P' = F P"
  define m' where "m' = F M"
  note b = record_shape [OF wf P M Mel root pid H3 H5 g3 g4 k3 hsN hsS shape F_def,
             folded P'_def m'_def]
  have rootP: "nid P' \<noteq> nid d'" using b(2,5) root by simp
  have m'd: "m' \<in> set (nodes d')"
    using child_is_descendant [OF b(3,4)] by (simp add: nodes_def)
  have lm': "lookup (nid M) d' = Some m'" using lookup_wf [OF b(1) m'd] b(6) by simp
  have pel: "isElement P'" using b(4) by (cases P') simp_all
  have sibN: "after (nid m') (childNodes P') = None \<Longrightarrow> sid = []" using b(15) by blast
  have sibS: "\<And>S'. after (nid m') (childNodes P') = Some S' \<Longrightarrow>
         isElement S' \<and> sid \<noteq> [] \<and> getAttribute S' ''id'' = Some sid \<and>
         (\<forall>y \<in> set (nodes d'). isElement y \<and> getAttribute y ''id'' = Some sid
            \<longrightarrow> nid y = nid S')"
    using b(16) by blast
  have "restoreMergeStatusPosition (w\<lparr>doc := dm\<rparr>) = Returned (w\<lparr>doc := cleanUp (nid m') d'\<rparr>)"
    using mid
  proof
    assume e: "dm = d'"
    have lp: "lookup (nid P') dm = Some P'" unfolding e by (rule lookup_wf [OF b(1,3)])
    have lm: "lookup (nid m') dm = Some m'" unfolding e by (rule lookup_wf [OF b(1) m'd])
    show ?thesis
      by (rule restore_mid [OF b(1) _ b(3,4) _ lm lp pel _ _ _ rootP b(8,9,10) pid(2) b(11,12,13,14)
            sibN sibS])
         (simp_all add: e b(1))
  next
    assume "\<exists>q qn r x. lookup (nid M) d' = Some x \<and> lookup q d' = Some qn \<and> isElement qn \<and>
                 \<not> contains x q \<and>
                 dm = updNode q (withChildren (placeBefore x r)) (removeNode (nid x) d')"
    then obtain q qn r where q: "lookup q d' = Some qn" "isElement qn" "\<not> contains m' q"
      "dm = updNode q (withChildren (placeBefore m' r)) (removeNode (nid m') d')"
      using lm' by auto
    have nc: "q \<notin> set (nids m')" using q(3) by (simp add: contains_def)
    note mf = moved_facts [OF b(1,3,4) nc q(1,2,4)]
    obtain pm where pm: "lookup (nid P') dm = Some pm" "isElement pm"
      "\<forall>s \<in> set (childNodes P'). nid s \<noteq> nid m' \<longrightarrow> nid s \<in> nid ` set (childNodes pm)"
      using mf(4) by blast
    show ?thesis
      by (rule restore_mid [OF b(1) mf(1) b(3,4) mf(2,3) pm mf(5,6) rootP b(8,9,10) pid(2)
            b(11,12,13,14) sibN sibS])
  qed
  then show "restoreMergeStatusPosition (w\<lparr>doc := dm\<rparr>) = Returned (w\<lparr>doc := cleanUp (nid M) d'\<rparr>)"
    using b(6) by simp
  have "parentNode (nid m') d' = Some P'" by (rule parentNode_wf [OF b(1,3,4)])
  then show "map_option nid (parentNode (nid M) (cleanUp (nid M) d')) = Some (nid P)"
    using b(5,6) by (simp add: position_cleanUp [OF b(1)])
  have "nextSibling (nid m') d' = after (nid m') (childNodes P')"
    by (rule nextSibling_wf [OF b(1,3,4)])
  then show "map_option nid (nextSibling (nid M) (cleanUp (nid M) d'))
           = map_option nid (after (nid M) (childNodes P))"
    using b(6,17) by (simp add: position_cleanUp [OF b(1)])
  have "\<forall>S. after (nid M) (childNodes P) = Some S \<longrightarrow>
          (\<exists>s'. lookup (nid S) d' = Some s' \<and>
             dataValue m' ''data-original-next-sibling-id'' \<noteq> [] \<and>
             getAttribute s' ''id'' = Some (dataValue m' ''data-original-next-sibling-id''))"
  proof (intro allI impI)
    fix S assume a: "after (nid M) (childNodes P) = Some S"
    then obtain S' where S': "after (nid m') (childNodes P') = Some S'" "nid S' = nid S"
      using b(17) by (cases "after (nid m') (childNodes P')") auto
    have "S' \<in> set (tl (childNodes P'))" by (rule after_in_tail [OF S'(1)])
    then have "S' \<in> set (childNodes P')" by (metis list.sel(2) list.set_sel(2))
    then have Sn: "S' \<in> set (nodes d')"
      using child_is_descendant [OF b(3)] by (simp add: nodes_def)
    have "lookup (nid S') d' = Some S'" using b(1) Sn by (rule lookup_wf)
    then have "lookup (nid S) d' = Some S'" by (simp only: S'(2))
    then show "\<exists>s'. lookup (nid S) d' = Some s' \<and>
             dataValue m' ''data-original-next-sibling-id'' \<noteq> [] \<and>
             getAttribute s' ''id'' = Some (dataValue m' ''data-original-next-sibling-id'')"
      using sibS [OF S'(1)] b(14) by simp
  qed
  then show "\<exists>b. lookup (nid M) d' = Some b \<and> dataValue b ''data-original-parent-id'' = pid \<and>
           (\<forall>S. after (nid M) (childNodes P) = Some S \<longrightarrow>
              (\<exists>s'. lookup (nid S) d' = Some s' \<and>
                 dataValue b ''data-original-next-sibling-id'' \<noteq> [] \<and>
                 getAttribute s' ''id'' = Some (dataValue b ''data-original-next-sibling-id'')))"
    using lm' b(10) by blast
qed


subsection \<open>Move, then restore\<close>

lemma insertNode_cases:
  "insertNode q x r d = Normal d'' \<Longrightarrow>
   d'' = d \<or> (\<exists>qn r'. lookup q d = Some qn \<and> isElement qn \<and> \<not> contains x q \<and>
                d'' = updNode q (withChildren (placeBefore x r')) (removeNode (nid x) d))"
  unfolding insertNode_def Let_def
  by (cases "lookup q d") (auto split: if_splits)

lemma move_cases:
  assumes box: "findMergeBox (doc w) = Some M"
  shows "final (moveMergeStatusToTop w) = w \<or>
         (\<exists>dm. final (moveMergeStatusToTop w) = w\<lparr>doc := dm\<rparr> \<and>
            (dm = recordPosition (nid M) w \<or>
             (\<exists>q qn r x. lookup (nid M) (recordPosition (nid M) w) = Some x \<and>
                lookup q (recordPosition (nid M) w) = Some qn \<and> isElement qn \<and>
                \<not> contains x q \<and>
                dm = updNode q (withChildren (placeBefore x r))
                       (removeNode (nid x) (recordPosition (nid M) w)))))"
proof -
  let ?d' = "recordPosition (nid M) w"
  have ib: "\<And>q r. case insertBefore q (nid M) r ?d' of
              Abrupt e \<Rightarrow> True
            | Normal dm \<Rightarrow> dm = ?d' \<or>
               (\<exists>q qn r x. lookup (nid M) ?d' = Some x \<and> lookup q ?d' = Some qn \<and> isElement qn \<and>
                  \<not> contains x q \<and>
                  dm = updNode q (withChildren (placeBefore x r)) (removeNode (nid x) ?d'))"
  proof -
    fix q r
    show "case insertBefore q (nid M) r ?d' of
              Abrupt e \<Rightarrow> True
            | Normal dm \<Rightarrow> dm = ?d' \<or>
               (\<exists>q qn r x. lookup (nid M) ?d' = Some x \<and> lookup q ?d' = Some qn \<and> isElement qn \<and>
                  \<not> contains x q \<and>
                  dm = updNode q (withChildren (placeBefore x r)) (removeNode (nid x) ?d'))"
    proof (cases "lookup (nid M) ?d'")
      case None
      then show ?thesis by (simp add: insertBefore_def)
    next
      case (Some x)
      show ?thesis
      proof (cases "insertNode q x r ?d'")
        case (Abrupt e)
        then show ?thesis using Some by (simp add: insertBefore_def)
      next
        case (Normal dm)
        then show ?thesis
          using Some insertNode_cases [OF Normal] by (auto simp: insertBefore_def)
      qed
    qed
  qed
  show ?thesis
  proof (cases "isConversationTab w \<and> getAttribute M ''data-moved-to-top'' \<noteq> Some ''true''")
    case False
    then show ?thesis using box by (auto simp: moveMergeStatusToTop_def)
  next
    case True
    show ?thesis
    proof (cases "querySelector [[Cls ''pr-comment-sorter-controls'']] (doc w)")
      case None
      then show ?thesis using box True by (simp add: moveMergeStatusToTop_def)
    next
      case (Some sc)
      show ?thesis
      proof (cases "parentNode (nid sc) (doc w)")
        case None
        then show ?thesis using box True Some by (simp add: moveMergeStatusToTop_def)
      next
        case (Some cp)
        let ?r = "map_option nid (nextSibling (nid sc) ?d')"
        show ?thesis
        proof (cases "insertBefore (nid cp) (nid M) ?r ?d'")
          case (Abrupt e)
          then have "final (moveMergeStatusToTop w) = w\<lparr>doc := ?d'\<rparr>"
            using box True \<open>querySelector [[Cls ''pr-comment-sorter-controls'']] (doc w) = Some sc\<close> Some
            by (simp add: moveMergeStatusToTop_def Let_def)
          then show ?thesis by blast
        next
          case (Normal dm)
          then have f: "final (moveMergeStatusToTop w) = w\<lparr>doc := dm\<rparr>"
            using box True \<open>querySelector [[Cls ''pr-comment-sorter-controls'']] (doc w) = Some sc\<close> Some
            by (simp add: moveMergeStatusToTop_def Let_def)
          have "dm = ?d' \<or>
               (\<exists>q qn r x. lookup (nid M) ?d' = Some x \<and> lookup q ?d' = Some qn \<and> isElement qn \<and>
                  \<not> contains x q \<and>
                  dm = updNode q (withChildren (placeBefore x r)) (removeNode (nid x) ?d'))"
            using ib [of "nid cp" ?r] Normal by simp
          then show ?thesis using f by blast
        qed
      qed
    qed
  qed
qed

lemma elId_attribute:
  "isElement n \<Longrightarrow> elId n \<noteq> [] \<Longrightarrow> getAttribute n ''id'' = Some (elId n)"
  by (cases n) (auto simp: elId_def getAttribute_def split: option.splits)

lemma restoreMarker_nonempty: "restoreMarker t \<noteq> []"
  by (simp add: restoreMarker_def)

lemma move_restore:
  assumes wf: "wfTree (doc w)"
    and box: "findMergeBox (doc w) = Some M"
    and H3: "\<forall>n \<in> set (nodes (doc w)). getAttribute n ''data-moved-to-top'' \<noteq> Some ''true''"
    and par: "parentNode (nid M) (doc w) = Some P" "nid P \<noteq> nid (doc w)" "elId P \<noteq> []"
    and H5: "\<forall>n \<in> set (nodes (doc w)). isElement n \<and> getAttribute n ''id'' = Some (elId P)
               \<longrightarrow> nid n = nid P"
    and H6N: "nextSibling (nid M) (doc w) = None \<longrightarrow>
                dataValue M ''data-original-next-sibling-id'' = []"
    and H6S: "\<forall>s. nextSibling (nid M) (doc w) = Some s \<longrightarrow> isElement s \<and>
                (\<forall>n \<in> set (nodes (doc w)). isElement n \<and>
                    getAttribute n ''id'' = Some (if elId s = [] then restoreMarker (now w) else elId s)
                  \<longrightarrow> nid n = nid s)"
  shows "\<exists>w'. restoreMergeStatusPosition (final (moveMergeStatusToTop w)) = Returned w' \<and>
           map_option nid (parentNode (nid M) (doc w')) = Some (nid P) \<and>
           map_option nid (nextSibling (nid M) (doc w'))
             = map_option nid (nextSibling (nid M) (doc w))"
    and "\<exists>b. lookup (nid M) (recordPosition (nid M) w) = Some b \<and>
           dataValue b ''data-original-parent-id'' = elId P \<and>
           (\<forall>s. nextSibling (nid M) (doc w) = Some s \<longrightarrow>
              (\<exists>s'. lookup (nid s) (recordPosition (nid M) w) = Some s' \<and>
                 dataValue b ''data-original-next-sibling-id'' \<noteq> [] \<and>
                 getAttribute s' ''id'' = Some (dataValue b ''data-original-next-sibling-id'')))"
proof -
  let ?d = "doc w" and ?m = "nid M"
  let ?d' = "recordPosition ?m w"
  let ?goal = "\<exists>w'. restoreMergeStatusPosition (final (moveMergeStatusToTop w)) = Returned w' \<and>
           map_option nid (parentNode (nid M) (doc w')) = Some (nid P) \<and>
           map_option nid (nextSibling (nid M) (doc w'))
             = map_option nid (nextSibling (nid M) (doc w))"
  let ?g1 = "setAttr ''data-moved-to-top'' ''true''"
  let ?g2 = "setAttr ''data-original-parent-id'' (elId P)"
  let ?d2 = "updNode ?m ?g2 (updNode ?m ?g1 ?d)"
  have Md: "M \<in> set (descendants ?d)" "isElement M" using findMergeBox_D [OF box] by simp_all
  then have Mn: "M \<in> set (nodes ?d)" by (simp add: nodes_def)
  have PD: "P \<in> set (nodes ?d)" "M \<in> set (childNodes P)"
    using parentNode_D [OF wf Mn par(1)] by simp_all
  have Pel: "isElement P" using PD(2) by (cases P) simp_all
  have pid: "getAttribute P ''id'' = Some (elId P)" by (rule elId_attribute [OF Pel par(3)])
  have ns: "nextSibling ?m ?d = after ?m (childNodes P)" by (rule nextSibling_wf [OF wf PD])
  have idu: "\<And>k d. updNode k id d = d" by (rule updNode_id) simp
  have mP: "?m \<noteq> nid P"
    using nid_not_below [OF wfTree_subtree [OF PD(1) wf] PD(2)] nid_in_nids [of M] by auto
  have d2: "setAttribute ?m ''data-original-parent-id''
              (case parentNode ?m ?d of None \<Rightarrow> [] | Some p \<Rightarrow> if nid p = nid ?d then [] else elId p)
              (setAttribute ?m ''data-moved-to-top'' ''true'' ?d) = ?d2"
    using par by (simp add: setAttribute_def)
  have still: "final (moveMergeStatusToTop w) = w \<Longrightarrow> ?goal"
  proof -
    assume e: "final (moveMergeStatusToTop w) = w"
    have "\<And>x. x \<in> set (descendants ?d) \<Longrightarrow>
            \<not> matches [[AttrEq ''data-moved-to-top'' ''true'']] x"
      using H3 by (auto simp: matches_def nodes_def)
    then have "querySelector [[AttrEq ''data-moved-to-top'' ''true'']] ?d = None"
      by (simp add: querySelector_def find_None_conv)
    then have "restoreMergeStatusPosition w = Returned w"
      by (simp add: restoreMergeStatusPosition_def)
    then show ?goal using e par(1) by simp
  qed
  let ?rec = "\<exists>b. lookup ?m ?d' = Some b \<and> dataValue b ''data-original-parent-id'' = elId P \<and>
           (\<forall>S. after ?m (childNodes P) = Some S \<longrightarrow>
              (\<exists>s'. lookup (nid S) ?d' = Some s' \<and>
                 dataValue b ''data-original-next-sibling-id'' \<noteq> [] \<and>
                 getAttribute s' ''id'' = Some (dataValue b ''data-original-next-sibling-id'')))"
  have res: "\<And>dm. dm = ?d' \<or>
         (\<exists>q qn r x. lookup ?m ?d' = Some x \<and> lookup q ?d' = Some qn \<and> isElement qn \<and>
             \<not> contains x q \<and>
             dm = updNode q (withChildren (placeBefore x r)) (removeNode (nid x) ?d')) \<Longrightarrow>
       restoreMergeStatusPosition (w\<lparr>doc := dm\<rparr>) = Returned (w\<lparr>doc := cleanUp ?m ?d'\<rparr>) \<and>
       map_option nid (parentNode ?m (cleanUp ?m ?d')) = Some (nid P) \<and>
       map_option nid (nextSibling ?m (cleanUp ?m ?d')) = map_option nid (after ?m (childNodes P)) \<and>
       ?rec"
  proof -
    fix dm assume mid: "dm = ?d' \<or>
         (\<exists>q qn r x. lookup ?m ?d' = Some x \<and> lookup q ?d' = Some qn \<and> isElement qn \<and>
             \<not> contains x q \<and>
             dm = updNode q (withChildren (placeBefore x r)) (removeNode (nid x) ?d'))"
    show "restoreMergeStatusPosition (w\<lparr>doc := dm\<rparr>) = Returned (w\<lparr>doc := cleanUp ?m ?d'\<rparr>) \<and>
       map_option nid (parentNode ?m (cleanUp ?m ?d')) = Some (nid P) \<and>
       map_option nid (nextSibling ?m (cleanUp ?m ?d')) = map_option nid (after ?m (childNodes P)) \<and>
       ?rec"
    proof (cases "after ?m (childNodes P)")
      case None
      have shape: "?d' = updNode ?m id (updNode ?m id ?d2)"
        using ns None par by (simp add: recordPosition_def Let_def setAttribute_def idu)
      have hsN: "after ?m (childNodes P) = None \<Longrightarrow>
                \<not> False \<and> \<not> False \<and> [] = dataValue M ''data-original-next-sibling-id'' \<and>
                [] = ([]::string)"
        using H6N ns by simp
      have hsS: "\<And>S. after ?m (childNodes P) = Some S \<Longrightarrow>
                False \<and> isElement S \<and> [] \<noteq> ([]::string) \<and> (False \<longrightarrow> ?m = nid S) \<and>
                (\<not> False \<longrightarrow> getAttribute S ''id'' = Some []) \<and>
                (\<forall>y \<in> set (nodes ?d). isElement y \<and> getAttribute y ''id'' = Some []
                   \<longrightarrow> nid y = nid S)"
        using None by simp
      note r = shape_restores [where d="?d" and P=P and M=M and pid="elId P" and ?g3.0=id and mk=False and sid="[]"
                   and ?g4.0=id and hs=False and ?k3.0="?m" and d'="?d'" and dm=dm,
                 OF wf PD Md(2) par(2) pid par(3) H3 H5 _ _ _ _ _ _ _ _ mP hsN hsS shape mid]
      show ?thesis using r by simp
    next
      case (Some S)
      have S: "isElement S"
        "\<forall>n \<in> set (nodes ?d). isElement n \<and>
            getAttribute n ''id'' = Some (if elId S = [] then restoreMarker (now w) else elId S)
          \<longrightarrow> nid n = nid S"
        using H6S ns Some by simp_all
      have "S \<in> set (tl (childNodes P))" by (rule after_in_tail [OF Some])
      then have Sc: "S \<in> set (childNodes P)" by (metis list.sel(2) list.set_sel(2))
      have SP: "nid S \<noteq> nid P"
        using nid_not_below [OF wfTree_subtree [OF PD(1) wf] Sc] nid_in_nids [of S] by auto
      show ?thesis
      proof (cases "elId S = []")
        case True
        let ?sid = "restoreMarker (now w)"
        have shape: "?d' = updNode ?m (setAttr ''data-original-next-sibling-id'' ?sid)
                             (updNode (nid S) (setId ?sid) ?d2)"
          using ns Some par True by (simp add: recordPosition_def Let_def setAttribute_def)
        have hsN: "after ?m (childNodes P) = None \<Longrightarrow>
                \<not> True \<and> \<not> True \<and> ?sid = dataValue M ''data-original-next-sibling-id'' \<and>
                ?sid = []"
          using Some by simp
        have hsS: "\<And>S'. after ?m (childNodes P) = Some S' \<Longrightarrow>
                True \<and> isElement S' \<and> ?sid \<noteq> [] \<and> (True \<longrightarrow> nid S = nid S') \<and>
                (\<not> True \<longrightarrow> getAttribute S' ''id'' = Some ?sid) \<and>
                (\<forall>y \<in> set (nodes ?d). isElement y \<and> getAttribute y ''id'' = Some ?sid
                   \<longrightarrow> nid y = nid S')"
          using Some S True by (simp add: restoreMarker_nonempty)
        note r = shape_restores [where d="?d" and P=P and M=M and pid="elId P" and ?g3.0="setId ?sid" and mk=True and sid="?sid"
                   and ?g4.0="setAttr ''data-original-next-sibling-id'' ?sid" and hs=True and ?k3.0="nid S" and d'="?d'" and dm=dm,
                   OF wf PD Md(2) par(2) pid par(3) H3 H5 _ _ _ _ _ _ _ _ SP hsN hsS shape mid]
        show ?thesis
          using r by (simp add: nid_setId childNodes_setId isElement_setId getAttribute_setId
              nid_setAttr childNodes_setAttr isElement_setAttr getAttribute_setAttr)
      next
        case False
        let ?sid = "elId S"
        have shape: "?d' = updNode ?m (setAttr ''data-original-next-sibling-id'' ?sid)
                             (updNode ?m id ?d2)"
          using ns Some par False by (simp add: recordPosition_def Let_def setAttribute_def idu)
        have hsN: "after ?m (childNodes P) = None \<Longrightarrow>
                \<not> True \<and> \<not> False \<and> ?sid = dataValue M ''data-original-next-sibling-id'' \<and>
                ?sid = []"
          using Some by simp
        have hsS: "\<And>S'. after ?m (childNodes P) = Some S' \<Longrightarrow>
                True \<and> isElement S' \<and> ?sid \<noteq> [] \<and> (False \<longrightarrow> ?m = nid S') \<and>
                (\<not> False \<longrightarrow> getAttribute S' ''id'' = Some ?sid) \<and>
                (\<forall>y \<in> set (nodes ?d). isElement y \<and> getAttribute y ''id'' = Some ?sid
                   \<longrightarrow> nid y = nid S')"
          using Some S False elId_attribute [OF S(1) False] by simp
        note r = shape_restores [where d="?d" and P=P and M=M and pid="elId P" and ?g3.0=id and mk=False and sid="?sid"
                   and ?g4.0="setAttr ''data-original-next-sibling-id'' ?sid" and hs=True and ?k3.0="?m" and d'="?d'" and dm=dm,
                   OF wf PD Md(2) par(2) pid par(3) H3 H5 _ _ _ _ _ _ _ _ mP hsN hsS shape mid]
        show ?thesis
          using r by (simp add: nid_setAttr childNodes_setAttr isElement_setAttr getAttribute_setAttr)
      qed
    qed
  qed
  have moved: "\<And>dm. final (moveMergeStatusToTop w) = w\<lparr>doc := dm\<rparr> \<Longrightarrow>
       dm = ?d' \<or>
         (\<exists>q qn r x. lookup ?m ?d' = Some x \<and> lookup q ?d' = Some qn \<and> isElement qn \<and>
             \<not> contains x q \<and>
             dm = updNode q (withChildren (placeBefore x r)) (removeNode (nid x) ?d')) \<Longrightarrow>
       ?goal"
  proof -
    fix dm assume f: "final (moveMergeStatusToTop w) = w\<lparr>doc := dm\<rparr>"
      and mid: "dm = ?d' \<or>
         (\<exists>q qn r x. lookup ?m ?d' = Some x \<and> lookup q ?d' = Some qn \<and> isElement qn \<and>
             \<not> contains x q \<and>
             dm = updNode q (withChildren (placeBefore x r)) (removeNode (nid x) ?d'))"
    show ?goal using res [OF mid] f ns by simp
  qed
  show ?goal using move_cases [OF box] still moved by blast
  have "?rec" using res [of ?d'] by simp
  then show "\<exists>b. lookup (nid M) (recordPosition (nid M) w) = Some b \<and>
           dataValue b ''data-original-parent-id'' = elId P \<and>
           (\<forall>s. nextSibling (nid M) (doc w) = Some s \<longrightarrow>
              (\<exists>s'. lookup (nid s) (recordPosition (nid M) w) = Some s' \<and>
                 dataValue b ''data-original-next-sibling-id'' \<noteq> [] \<and>
                 getAttribute s' ''id'' = Some (dataValue b ''data-original-next-sibling-id'')))"
    unfolding ns .
qed

text \<open>
  C3 (as the code has it). Take a page of distinct node objects on which no node is
  marked as moved, whose merge box has a parent element with a non-empty id that no other
  element has, and whose next sibling, if there is one, is an element whose id (the
  restore marker, if it has none) no other element has; a merge box that is a last child
  carries no sibling id from before. Then \<open>restoreMergeStatusPosition()\<close> after
  \<open>moveMergeStatusToTop()\<close> returns normally and leaves the merge box under the same
  parent object and before the same next sibling object, or last if it was last. What
  the move records on the merge box is the parent's id as it is, and the id of the next
  sibling, which has got the restore marker as its id if it had none; the parent gets no id.
\<close>

theorem C3_restore_after_move:
  assumes "wfTree (doc w)"
    and "findMergeBox (doc w) = Some mergeBox"
    and "\<forall>n \<in> set (nodes (doc w)). getAttribute n ''data-moved-to-top'' \<noteq> Some ''true''"
    and "parentNode (nid mergeBox) (doc w) = Some p" and "nid p \<noteq> nid (doc w)"
    and "elId p \<noteq> []"
    and "\<forall>n \<in> set (nodes (doc w)). isElement n \<and> getAttribute n ''id'' = Some (elId p)
           \<longrightarrow> nid n = nid p"
    and "nextSibling (nid mergeBox) (doc w) = None \<longrightarrow>
           dataValue mergeBox ''data-original-next-sibling-id'' = []"
    and "\<forall>s. nextSibling (nid mergeBox) (doc w) = Some s \<longrightarrow> isElement s \<and>
           (\<forall>n \<in> set (nodes (doc w)). isElement n \<and>
               getAttribute n ''id'' = Some (if elId s = [] then restoreMarker (now w) else elId s)
             \<longrightarrow> nid n = nid s)"
  shows "(\<exists>w'. restoreMergeStatusPosition (final (moveMergeStatusToTop w)) = Returned w' \<and>
            map_option nid (parentNode (nid mergeBox) (doc w')) = Some (nid p) \<and>
            map_option nid (nextSibling (nid mergeBox) (doc w'))
              = map_option nid (nextSibling (nid mergeBox) (doc w))) \<and>
         (\<exists>b. lookup (nid mergeBox) (recordPosition (nid mergeBox) w) = Some b \<and>
            dataValue b ''data-original-parent-id'' = elId p \<and>
            (\<forall>s. nextSibling (nid mergeBox) (doc w) = Some s \<longrightarrow>
               (\<exists>s'. lookup (nid s) (recordPosition (nid mergeBox) w) = Some s' \<and>
                  dataValue b ''data-original-next-sibling-id'' \<noteq> [] \<and>
                  getAttribute s' ''id'' = Some (dataValue b ''data-original-next-sibling-id''))))"
  using move_restore [OF assms] by (rule conjI)

subsection \<open>A page whose merge area has an id\<close>

lemma nid_box: "nid (mergeBoxNode as) = 7"
  by (simp add: mergeBoxNode_def)

lemma nodes_siblingPage:
  "map nid (nodes siblingPage) = [0, 1, 2, 30, 3, 4, 6, 7, 8]"
  "\<forall>n \<in> set (nodes siblingPage). getAttribute n ''data-moved-to-top'' \<noteq> Some ''true''"
  "\<forall>n \<in> set (nodes siblingPage). isElement n \<and> getAttribute n ''id'' = Some ''merge-area''
     \<longrightarrow> nid n = 6"
  "\<forall>n \<in> set (nodes siblingPage). isElement n \<and>
       getAttribute n ''id'' = Some (restoreMarker 1700000000000) \<longrightarrow> nid n = 8"
  unfolding siblingPage_def mergeLayout_def mergeBoxNode_def
  by (simp_all add: nodes_Element getAttribute_def restoreMarker_def)

lemma position_siblingPage:
  "findMergeBox siblingPage = Some (mergeBoxNode [(''id'', ''partial-pull-merging'')])"
  "parentNode 7 siblingPage
     = Some (Element 6 ''div'' [(''class'', ''discussion-timeline-actions''), (''id'', ''merge-area'')]
               plainBox
               [mergeBoxNode [(''id'', ''partial-pull-merging'')],
                Element 8 ''div'' [(''class'', ''merge-footer'')] plainBox []])"
  "nextSibling 7 siblingPage = Some (Element 8 ''div'' [(''class'', ''merge-footer'')] plainBox [])"
  unfolding siblingPage_def mergeLayout_def mergeBoxNode_def findMergeBox_def
  by (simp_all add: query_defs dom_defs)

lemma conv_sibling: "isConversationTab (mergeWorld siblingPage)"
  unfolding mergeWorld_def siblingPage_def mergeLayout_def mergeBoxNode_def
    isConversationTab_def tabStrategy2_def tabStrategy3_def tabStrategy4_def strIncludes_def
  by (simp add: querySelector_def matches_def getAttribute_def classList_def rendered_def
        plainBox_def closest_def sublist_code)

lemma move_sibling:
  "moveMergeStatusToTop (mergeWorld siblingPage)
     = Returned (mergeWorld (mergeLayout
         [mergeBoxNode [(''id'', ''partial-pull-merging''), (''data-moved-to-top'', ''true''),
                        (''data-original-parent-id'', ''merge-area''),
                        (''data-original-next-sibling-id'', restoreMarker 1700000000000)]]
         [(''class'', ''discussion-timeline-actions''), (''id'', ''merge-area'')]
         [Element 8 ''div'' [(''class'', ''merge-footer''), (''id'', restoreMarker 1700000000000)]
            plainBox []] []))"
proof -
  let ?w = "mergeWorld siblingPage"
  let ?b = "mergeBoxNode [(''id'', ''partial-pull-merging''), (''data-moved-to-top'', ''true''),
                        (''data-original-parent-id'', ''merge-area''),
                        (''data-original-next-sibling-id'', restoreMarker 1700000000000)]"
  let ?s = "Element 8 ''div'' [(''class'', ''merge-footer''), (''id'', restoreMarker 1700000000000)]
            plainBox []"
  let ?a = "[(''class'', ''discussion-timeline-actions''), (''id'', ''merge-area'')]"
  let ?d' = "mergeLayout [] ?a [?b, ?s] []"
  have d: "doc ?w = siblingPage" by (simp add: mergeWorld_def)
  have ctl: "querySelector [[Cls ''pr-comment-sorter-controls'']] siblingPage
     = Some (Element 30 ''div'' [(''class'', ''pr-comment-sorter-controls'')] plainBox [])"
    unfolding siblingPage_def mergeLayout_def mergeBoxNode_def by (simp add: query_defs)
  have "\<exists>cp. parentNode 30 siblingPage = Some cp \<and> nid cp = 2"
    unfolding siblingPage_def mergeLayout_def mergeBoxNode_def by (simp add: dom_defs)
  then obtain cp where cp: "parentNode 30 siblingPage = Some cp" "nid cp = 2" by blast
  have nm: "getAttribute (mergeBoxNode [(''id'', ''partial-pull-merging'')]) ''data-moved-to-top''
              \<noteq> Some ''true''"
    by (simp add: mergeBoxNode_def getAttribute_def)
  have rec: "recordPosition 7 ?w = ?d'"
    unfolding siblingPage_def mergeLayout_def mergeBoxNode_def mergeWorld_def recordPosition_def
    by (simp add: dom_defs setAttribute_def elId_def)
  have ns: "map_option nid (nextSibling 30 ?d') = Some 3"
    unfolding mergeLayout_def mergeBoxNode_def by (simp add: dom_defs)
  have ins: "insertBefore 2 7 (Some 3) ?d' = Normal (mergeLayout [?b] ?a [?s] [])"
    unfolding mergeLayout_def mergeBoxNode_def by (simp add: dom_defs)
  have "moveMergeStatusToTop ?w = Returned (?w\<lparr>doc := mergeLayout [?b] ?a [?s] []\<rparr>)"
    unfolding moveMergeStatusToTop_def
    by (simp add: conv_sibling d position_siblingPage(1) nm ctl cp rec ns ins nid_box)
  then show ?thesis by (simp add: mergeWorld_def)
qed

lemma moved_sibling:
  "map_option nid (parentNode 7 (doc (final (moveMergeStatusToTop (mergeWorld siblingPage))))) = Some 2"
proof -
  have "map_option nid (parentNode 7 (mergeLayout
         [mergeBoxNode [(''id'', ''partial-pull-merging''), (''data-moved-to-top'', ''true''),
                        (''data-original-parent-id'', ''merge-area''),
                        (''data-original-next-sibling-id'', restoreMarker 1700000000000)]]
         [(''class'', ''discussion-timeline-actions''), (''id'', ''merge-area'')]
         [Element 8 ''div'' [(''class'', ''merge-footer''), (''id'', restoreMarker 1700000000000)]
            plainBox []] [])) = Some 2"
    unfolding mergeLayout_def mergeBoxNode_def by (simp add: dom_defs)
  moreover have "\<And>page. doc (mergeWorld page) = page" by (simp add: mergeWorld_def)
  ultimately show ?thesis by (simp add: move_sibling)
qed

theorem C3_restore_after_move_witness:
  "wfTree (doc (mergeWorld siblingPage)) \<and>
   findMergeBox (doc (mergeWorld siblingPage))
     = Some (mergeBoxNode [(''id'', ''partial-pull-merging'')]) \<and>
   map_option nid (parentNode 7 (doc (mergeWorld siblingPage))) = Some 6 \<and>
   map_option nid (nextSibling 7 (doc (mergeWorld siblingPage))) = Some 8 \<and>
   map_option nid (parentNode 7 (doc (final (moveMergeStatusToTop (mergeWorld siblingPage)))))
     = Some 2 \<and>
   (\<exists>w'. restoreMergeStatusPosition (final (moveMergeStatusToTop (mergeWorld siblingPage)))
            = Returned w' \<and>
          map_option nid (parentNode 7 (doc w')) = Some 6 \<and>
          map_option nid (nextSibling 7 (doc w')) = Some 8) \<and>
   (\<exists>b s'. lookup 7 (recordPosition 7 (mergeWorld siblingPage)) = Some b \<and>
          dataValue b ''data-original-parent-id'' = ''merge-area'' \<and>
          lookup 8 (recordPosition 7 (mergeWorld siblingPage)) = Some s' \<and>
          dataValue b ''data-original-next-sibling-id'' \<noteq> [] \<and>
          getAttribute s' ''id'' = Some (dataValue b ''data-original-next-sibling-id''))"
proof -
  let ?w = "mergeWorld siblingPage"
  let ?P = "Element 6 ''div'' [(''class'', ''discussion-timeline-actions''), (''id'', ''merge-area'')]
               plainBox
               [mergeBoxNode [(''id'', ''partial-pull-merging'')],
                Element 8 ''div'' [(''class'', ''merge-footer'')] plainBox []]"
  let ?S = "Element 8 ''div'' [(''class'', ''merge-footer'')] plainBox []"
  have d: "doc ?w = siblingPage" "now ?w = 1700000000000" by (simp_all add: mergeWorld_def)
  have wf: "wfTree (doc ?w)"
    by (simp add: d wfTree_def nids_def nodes_siblingPage(1))
  have box: "findMergeBox (doc ?w) = Some (mergeBoxNode [(''id'', ''partial-pull-merging'')])"
    by (simp add: d position_siblingPage)
  have h3: "\<forall>n \<in> set (nodes (doc ?w)). getAttribute n ''data-moved-to-top'' \<noteq> Some ''true''"
    unfolding d by (rule nodes_siblingPage(2))
  have par: "parentNode (nid (mergeBoxNode [(''id'', ''partial-pull-merging'')])) (doc ?w) = Some ?P"
    by (simp add: d nid_box position_siblingPage)
  have "nid siblingPage = 0" by (simp add: siblingPage_def mergeLayout_def)
  then have root: "nid ?P \<noteq> nid (doc ?w)" by (simp add: d)
  have pid: "elId ?P = ''merge-area''" by (simp add: elId_def)
  have pid': "elId ?P \<noteq> []" by (simp add: elId_def)
  have h5: "\<forall>n \<in> set (nodes (doc ?w)). isElement n \<and> getAttribute n ''id'' = Some (elId ?P)
           \<longrightarrow> nid n = nid ?P"
    unfolding d pid using nodes_siblingPage(3) by simp
  have ns: "nextSibling (nid (mergeBoxNode [(''id'', ''partial-pull-merging'')])) (doc ?w) = Some ?S"
    by (simp add: d nid_box position_siblingPage)
  have h6n: "nextSibling (nid (mergeBoxNode [(''id'', ''partial-pull-merging'')])) (doc ?w) = None \<longrightarrow>
           dataValue (mergeBoxNode [(''id'', ''partial-pull-merging'')])
             ''data-original-next-sibling-id'' = []"
    by (simp add: ns)
  have h6s: "\<forall>s. nextSibling (nid (mergeBoxNode [(''id'', ''partial-pull-merging'')])) (doc ?w) = Some s
           \<longrightarrow> isElement s \<and>
           (\<forall>n \<in> set (nodes (doc ?w)). isElement n \<and>
               getAttribute n ''id'' = Some (if elId s = [] then restoreMarker (now ?w) else elId s)
             \<longrightarrow> nid n = nid s)"
  proof (intro allI impI)
    fix s
    assume "nextSibling (nid (mergeBoxNode [(''id'', ''partial-pull-merging'')])) (doc ?w) = Some s"
    then have s: "s = ?S" using ns by simp
    have e: "elId ?S = []" "nid ?S = 8" "isElement ?S" by (simp_all add: elId_def)
    show "isElement s \<and>
           (\<forall>n \<in> set (nodes (doc ?w)). isElement n \<and>
               getAttribute n ''id'' = Some (if elId s = [] then restoreMarker (now ?w) else elId s)
             \<longrightarrow> nid n = nid s)"
      unfolding s e d using nodes_siblingPage(4) by simp
  qed
  have "(\<exists>w'. restoreMergeStatusPosition (final (moveMergeStatusToTop ?w)) = Returned w' \<and>
          map_option nid (parentNode 7 (doc w')) = Some 6 \<and>
          map_option nid (nextSibling 7 (doc w')) = Some 8) \<and>
        (\<exists>b s'. lookup 7 (recordPosition 7 ?w) = Some b \<and>
          dataValue b ''data-original-parent-id'' = ''merge-area'' \<and>
          lookup 8 (recordPosition 7 ?w) = Some s' \<and>
          dataValue b ''data-original-next-sibling-id'' \<noteq> [] \<and>
          getAttribute s' ''id'' = Some (dataValue b ''data-original-next-sibling-id''))"
    using C3_restore_after_move [OF wf box h3 par root pid' h5 h6n h6s]
    unfolding ns pid by (simp add: nid_box)
  moreover have "map_option nid (parentNode 7 (doc ?w)) = Some 6"
    "map_option nid (nextSibling 7 (doc ?w)) = Some 8"
    using par ns by (simp_all add: nid_box)
  ultimately show ?thesis using wf box moved_sibling by blast
qed

subsection \<open>A page whose merge area has no id\<close>

lemma conv_lastChild: "isConversationTab (mergeWorld lastChildPage)"
  unfolding mergeWorld_def lastChildPage_def mergeLayout_def mergeBoxNode_def
    isConversationTab_def tabStrategy2_def tabStrategy3_def tabStrategy4_def strIncludes_def
  by (simp add: querySelector_def matches_def getAttribute_def classList_def rendered_def
        plainBox_def closest_def sublist_code)

lemma box_lastChild:
  "findMergeBox lastChildPage = Some (mergeBoxNode [(''id'', ''partial-pull-merging'')])"
  unfolding lastChildPage_def mergeLayout_def mergeBoxNode_def findMergeBox_def
  by (simp add: query_defs)

lemma record_lastChild:
  "recordPosition 7 (mergeWorld lastChildPage)
     = mergeLayout [] [(''class'', ''discussion-timeline-actions'')]
         [mergeBoxNode [(''id'', ''partial-pull-merging''), (''data-moved-to-top'', ''true''),
                        (''data-original-parent-id'', [])]] []"
  unfolding lastChildPage_def mergeLayout_def mergeBoxNode_def mergeWorld_def recordPosition_def
  by (simp add: dom_defs setAttribute_def elId_def)

lemma controls_lastChild:
  "querySelector [[Cls ''pr-comment-sorter-controls'']] lastChildPage
     = Some (Element 30 ''div'' [(''class'', ''pr-comment-sorter-controls'')] plainBox [])"
  unfolding lastChildPage_def mergeLayout_def mergeBoxNode_def
  by (simp add: query_defs)

lemma controlsParent_lastChild:
  "\<exists>cp. parentNode 30 lastChildPage = Some cp \<and> nid cp = 2"
  unfolding lastChildPage_def mergeLayout_def mergeBoxNode_def
  by (simp add: dom_defs)

lemma move_lastChild:
  "moveMergeStatusToTop (mergeWorld lastChildPage)
     = Returned (mergeWorld (mergeLayout
         [mergeBoxNode [(''id'', ''partial-pull-merging''), (''data-moved-to-top'', ''true''),
                        (''data-original-parent-id'', [])]]
         [(''class'', ''discussion-timeline-actions'')] [] []))"
proof -
  let ?w = "mergeWorld lastChildPage"
  let ?b = "mergeBoxNode [(''id'', ''partial-pull-merging''), (''data-moved-to-top'', ''true''),
                        (''data-original-parent-id'', [])]"
  let ?d' = "mergeLayout [] [(''class'', ''discussion-timeline-actions'')] [?b] []"
  have d: "doc ?w = lastChildPage" by (simp add: mergeWorld_def)
  obtain cp where cp: "parentNode 30 lastChildPage = Some cp" "nid cp = 2"
    using controlsParent_lastChild by blast
  have nm: "getAttribute (mergeBoxNode [(''id'', ''partial-pull-merging'')]) ''data-moved-to-top''
              \<noteq> Some ''true''"
    by (simp add: mergeBoxNode_def getAttribute_def)
  have ns: "map_option nid (nextSibling 30 ?d') = Some 3"
    unfolding mergeLayout_def mergeBoxNode_def by (simp add: dom_defs)
  have ins: "insertBefore 2 7 (Some 3) ?d'
       = Normal (mergeLayout [?b] [(''class'', ''discussion-timeline-actions'')] [] [])"
    unfolding mergeLayout_def mergeBoxNode_def by (simp add: dom_defs)
  have "moveMergeStatusToTop ?w
          = Returned (?w\<lparr>doc := mergeLayout [?b] [(''class'', ''discussion-timeline-actions'')] [] []\<rparr>)"
    unfolding moveMergeStatusToTop_def
    by (simp add: conv_lastChild d box_lastChild nm controls_lastChild cp record_lastChild ns ins
          nid_box)
  then show ?thesis by (simp add: mergeWorld_def)
qed


lemma restore_lastChild:
  "restoreMergeStatusPosition (mergeWorld (mergeLayout
         [mergeBoxNode [(''id'', ''partial-pull-merging''), (''data-moved-to-top'', ''true''),
                        (''data-original-parent-id'', [])]]
         [(''class'', ''discussion-timeline-actions'')] [] []))
     = Returned (mergeWorld (mergeLayout [] [(''class'', ''discussion-timeline-actions'')] []
         [mergeBoxNode [(''id'', ''partial-pull-merging'')]]))"
proof -
  let ?b = "mergeBoxNode [(''id'', ''partial-pull-merging''), (''data-moved-to-top'', ''true''),
                        (''data-original-parent-id'', [])]"
  let ?dm = "mergeLayout [?b] [(''class'', ''discussion-timeline-actions'')] [] []"
  let ?w = "mergeWorld ?dm"
  have d: "doc ?w = ?dm" by (simp add: mergeWorld_def)
  have q: "querySelector [[AttrEq ''data-moved-to-top'' ''true'']] ?dm = Some ?b"
    unfolding mergeLayout_def mergeBoxNode_def by (simp add: query_defs)
  have dv: "dataValue ?b ''data-original-parent-id'' = []"
    "dataValue ?b ''data-original-next-sibling-id'' = []"
    by (simp_all add: dataValue_def mergeBoxNode_def getAttribute_def)
  have t: "\<exists>p. restoreTarget ?b ?dm = Some p \<and> nid p = 3"
    unfolding restoreTarget_def dv
    unfolding mergeLayout_def mergeBoxNode_def by (simp add: query_defs)
  then obtain p where p: "restoreTarget ?b ?dm = Some p" "nid p = 3" by blast
  have ins: "insertBefore 3 7 None ?dm
       = Normal (mergeLayout [] [(''class'', ''discussion-timeline-actions'')] [] [?b])"
    unfolding mergeLayout_def mergeBoxNode_def by (simp add: dom_defs)
  have cl: "cleanUp 7 (mergeLayout [] [(''class'', ''discussion-timeline-actions'')] [] [?b])
       = mergeLayout [] [(''class'', ''discussion-timeline-actions'')] []
           [mergeBoxNode [(''id'', ''partial-pull-merging'')]]"
    unfolding mergeLayout_def mergeBoxNode_def cleanUp_def removeAttribute_def by simp
  have "restoreMergeStatusPosition ?w
          = Returned (?w\<lparr>doc := mergeLayout [] [(''class'', ''discussion-timeline-actions'')] []
           [mergeBoxNode [(''id'', ''partial-pull-merging'')]]\<rparr>)"
    unfolding restoreMergeStatusPosition_def
    by (simp add: d q p dv ins cl nid_box)
  then show ?thesis by (simp add: mergeWorld_def)
qed

text \<open>
  A merge box whose parent has no id does not come back, here a merge box that is the
  only child of its parent: the move records an empty parent id and gives the parent
  none, and the restore puts the merge box at the end of \<open>#discussion_bucket\<close>, not
  back under its parent.
\<close>

theorem C3_parent_without_id_counterexample:
  "findMergeBox lastChildPage = Some (mergeBoxNode [(''id'', ''partial-pull-merging'')]) \<and>
   map_option nid (parentNode 7 lastChildPage) = Some 6 \<and>
   nextSibling 7 lastChildPage = None \<and>
   final (moveMergeStatusToTop (mergeWorld lastChildPage))
     = mergeWorld (mergeLayout
         [mergeBoxNode [(''id'', ''partial-pull-merging''), (''data-moved-to-top'', ''true''),
                        (''data-original-parent-id'', [])]]
         [(''class'', ''discussion-timeline-actions'')] [] []) \<and>
   final (restoreMergeStatusPosition (final (moveMergeStatusToTop (mergeWorld lastChildPage))))
     = mergeWorld (mergeLayout [] [(''class'', ''discussion-timeline-actions'')] []
         [mergeBoxNode [(''id'', ''partial-pull-merging'')]]) \<and>
   map_option nid (parentNode 7 (doc (final (restoreMergeStatusPosition
       (final (moveMergeStatusToTop (mergeWorld lastChildPage))))))) = Some 3"
proof -
  have p: "map_option nid (parentNode 7 lastChildPage) = Some 6"
    "nextSibling 7 lastChildPage = None"
    unfolding lastChildPage_def mergeLayout_def mergeBoxNode_def by (simp_all add: dom_defs)
  have "map_option nid (parentNode 7 (mergeLayout [] [(''class'', ''discussion-timeline-actions'')] []
         [mergeBoxNode [(''id'', ''partial-pull-merging'')]])) = Some 3"
    unfolding mergeLayout_def mergeBoxNode_def by (simp add: dom_defs)
  then have q: "map_option nid (parentNode 7 (doc (mergeWorld (mergeLayout []
         [(''class'', ''discussion-timeline-actions'')] []
         [mergeBoxNode [(''id'', ''partial-pull-merging'')]])))) = Some 3"
    by (simp add: mergeWorld_def)
  have m: "final (moveMergeStatusToTop (mergeWorld lastChildPage))
     = mergeWorld (mergeLayout
         [mergeBoxNode [(''id'', ''partial-pull-merging''), (''data-moved-to-top'', ''true''),
                        (''data-original-parent-id'', [])]]
         [(''class'', ''discussion-timeline-actions'')] [] [])"
    by (simp add: move_lastChild)
  have r: "final (restoreMergeStatusPosition (final (moveMergeStatusToTop (mergeWorld lastChildPage))))
     = mergeWorld (mergeLayout [] [(''class'', ''discussion-timeline-actions'')] []
         [mergeBoxNode [(''id'', ''partial-pull-merging'')]])"
    by (simp add: m restore_lastChild)
  show ?thesis
    by (intro conjI) (fact box_lastChild p m r | simp only: r q)+
qed

end
